theory Spec2Isabelle
  imports Main "HOL-Library.Word"
begin

section \<open>The two sketches and their constants\<close>

text \<open>
  The repository holds two Arduino sketches that share their registry code word for word
  and differ in constants and in the insert routine: \<^verbatim>\<open>SimpleCardReadWrite.ino\<close> stores bare
  UIDs (\<open>Bare\<close>), the other sketch stores a UID together with a name (\<open>Named\<close>).
  Functions that are textually the same in both files take the sketch as a parameter
  and read its constants from it.

  A \<^verbatim>\<open>byte\<close> is an 8-bit word. A C \<^verbatim>\<open>int\<close> is modelled as \<open>int\<close>: the largest value any
  expression of the sketches reaches is an EEPROM address below 10 + 255 * 32, far
  inside the 16-bit range of the AVR, so no wrap-around can occur. The EEPROM is a
  function from addresses to bytes; \<^verbatim>\<open>EEPROM.update(a, v)\<close> leaves the cell holding \<open>v\<close>
  whether or not it performs a physical write.
\<close>

datatype variant = Bare | Named

type_synonym byte = "8 word"
type_synonym eeprom = "int \<Rightarrow> byte"

definition EEPROM_ADDR_COUNT :: int where "EEPROM_ADDR_COUNT = 0"
definition EEPROM_ADDR_START :: int where "EEPROM_ADDR_START = 10"
definition MAX_UID_LEN :: int where "MAX_UID_LEN = 10"
definition MAX_NAME_LEN :: int where "MAX_NAME_LEN = 20"
definition REMOVAL_CHECKS :: int where "REMOVAL_CHECKS = 6"

fun MAX_CARDS :: "variant \<Rightarrow> int" where
  "MAX_CARDS Bare = 40"
| "MAX_CARDS Named = 25"

fun ENTRY_SIZE :: "variant \<Rightarrow> int" where
  "ENTRY_SIZE Bare = 1 + MAX_UID_LEN"
| "ENTRY_SIZE Named = 1 + MAX_UID_LEN + 1 + MAX_NAME_LEN"

section \<open>EEPROM helpers\<close>

definition countValid :: "variant \<Rightarrow> eeprom \<Rightarrow> bool" where
  "countValid v e = (let c = e EEPROM_ADDR_COUNT in
     if uint c \<le> MAX_CARDS v then True else False)"

definition writeCount :: "variant \<Rightarrow> byte \<Rightarrow> eeprom \<Rightarrow> eeprom" where
  "writeCount v val e =
     (let val' = (if uint val > MAX_CARDS v then word_of_int (MAX_CARDS v) else val)
      in e(EEPROM_ADDR_COUNT := val'))"

definition readCount :: "variant \<Rightarrow> eeprom \<Rightarrow> byte" where
  "readCount v e = (let x = e EEPROM_ADDR_COUNT in
     if uint x > MAX_CARDS v then 0 else x)"

definition entryAddress :: "variant \<Rightarrow> int \<Rightarrow> int" where
  "entryAddress v index = EEPROM_ADDR_START + index * ENTRY_SIZE v"

text \<open>The part of \<^verbatim>\<open>setup()\<close> that touches the registry,
  \<^verbatim>\<open>if (!countValid()) writeCount(0);\<close> (named \<open>sketch_setup\<close>, as \<open>setup\<close> is an Isabelle keyword).\<close>

definition sketch_setup :: "variant \<Rightarrow> eeprom \<Rightarrow> eeprom" where
  "sketch_setup v e = (if \<not> countValid v e then writeCount v 0 e else e)"

section \<open>Lookup\<close>

text \<open>
  A \<^verbatim>\<open>byte *uid\<close> argument is the list of bytes of the buffer it points to, read with
  \<open>uid ! nat i\<close>. The sketches only ever pass \<^verbatim>\<open>currentUID\<close>, a buffer of \<open>MAX_UID_LEN\<close>
  bytes, with a length of at most \<open>MAX_UID_LEN\<close>; theorems that depend on the bytes read
  assume that the length does not exceed the buffer.

  The inner loop of \<^verbatim>\<open>findIndex\<close>: compare \<open>stLen\<close> stored bytes with the buffer, stopping
  at the first difference.
\<close>

function uid_match :: "eeprom \<Rightarrow> int \<Rightarrow> byte list \<Rightarrow> int \<Rightarrow> int \<Rightarrow> bool" where
  "uid_match e addr uid stLen i =
     (if i < stLen then
        (if e (addr + 1 + i) \<noteq> uid ! nat i then False
         else uid_match e addr uid stLen (i + 1))
      else True)"
  by pat_completeness auto
termination
  by (relation "measure (\<lambda>(e, addr, uid, stLen, i). nat (stLen - i))") auto

declare uid_match.simps [simp del]

function findIndex_loop ::
  "variant \<Rightarrow> eeprom \<Rightarrow> byte list \<Rightarrow> byte \<Rightarrow> int \<Rightarrow> int \<Rightarrow> int" where
  "findIndex_loop v e uid len count idx =
     (if idx < count then
        (let addr = entryAddress v idx; stLen = e addr in
         if stLen \<noteq> len then findIndex_loop v e uid len count (idx + 1)
         else if uid_match e addr uid (uint stLen) 0 then idx
         else findIndex_loop v e uid len count (idx + 1))
      else - 1)"
  by pat_completeness auto
termination
  by (relation "measure (\<lambda>(v, e, uid, len, count, idx). nat (count - idx))") auto

declare findIndex_loop.simps [simp del]

definition findIndex :: "variant \<Rightarrow> eeprom \<Rightarrow> byte list \<Rightarrow> byte \<Rightarrow> int" where
  "findIndex v e uid len = findIndex_loop v e uid len (uint (readCount v e)) 0"

section \<open>Insert\<close>

text \<open>The loop that stores the UID padded with zeros to \<open>MAX_UID_LEN\<close> bytes.\<close>

function store_uid :: "eeprom \<Rightarrow> int \<Rightarrow> byte list \<Rightarrow> byte \<Rightarrow> int \<Rightarrow> eeprom" where
  "store_uid e addr uid len i =
     (if i < MAX_UID_LEN then
        (let b = (if i < uint len then uid ! nat i else 0)
         in store_uid (e(addr + 1 + i := b)) addr uid len (i + 1))
      else e)"
  by pat_completeness auto
termination
  by (relation "measure (\<lambda>(e, addr, uid, len, i). nat (MAX_UID_LEN - i))") auto

declare store_uid.simps [simp del]

text \<open>\<^verbatim>\<open>addCard\<close> of the bare sketch. The result is the EEPROM afterwards and the returned flag.\<close>

definition addCard :: "eeprom \<Rightarrow> byte list \<Rightarrow> byte \<Rightarrow> eeprom \<times> bool" where
  "addCard e uid len =
     (if len = 0 then (e, False)
      else let count = readCount Bare e in
        if uint count \<ge> MAX_CARDS Bare then (e, False)
        else if findIndex Bare e uid len \<ge> 0 then (e, False)
        else
          let addr = entryAddress Bare (uint count);
              e1 = e(addr := len);
              e2 = store_uid e1 addr uid len 0;
              e3 = writeCount Bare (count + 1) e2
          in (e3, True))"


text \<open>
  \<^verbatim>\<open>addCardWithName\<close> of the name-carrying sketch. An Arduino \<^verbatim>\<open>String\<close> is a \<open>string\<close>; a
  \<^verbatim>\<open>char\<close> is stored as the byte \<open>of_char c\<close> and read back with \<open>char_of\<close>.
\<close>

function store_name :: "eeprom \<Rightarrow> int \<Rightarrow> string \<Rightarrow> byte \<Rightarrow> int \<Rightarrow> eeprom" where
  "store_name e addr name nlen i =
     (if i < MAX_NAME_LEN then
        (let b = (if i < uint nlen then of_char (name ! nat i) else 0)
         in store_name (e(addr + 1 + MAX_UID_LEN + 1 + i := b)) addr name nlen (i + 1))
      else e)"
  by pat_completeness auto
termination
  by (relation "measure (\<lambda>(e, addr, name, nlen, i). nat (MAX_NAME_LEN - i))") auto

declare store_name.simps [simp del]

definition addCardWithName :: "eeprom \<Rightarrow> byte list \<Rightarrow> byte \<Rightarrow> string \<Rightarrow> eeprom \<times> bool" where
  "addCardWithName e uid uidLen name0 =
     (if uidLen = 0 then (e, False)
      else
        let name = (if int (length name0) > MAX_NAME_LEN
                    then take (nat MAX_NAME_LEN) name0 else name0);
            count = readCount Named e in
        if uint count \<ge> MAX_CARDS Named then (e, False)
        else if findIndex Named e uid uidLen \<ge> 0 then (e, False)
        else
          let addr = entryAddress Named (uint count);
              e1 = e(addr := uidLen);
              e2 = store_uid e1 addr uid uidLen 0;
              nlen = (word_of_nat (length name) :: byte);
              e3 = e2(addr + 1 + MAX_UID_LEN := nlen);
              e4 = store_name e3 addr name nlen 0;
              e5 = writeCount Named (count + 1) e4
          in (e5, True))"

section \<open>Delete and clear\<close>

text \<open>The byte-copy loop of \<^verbatim>\<open>removeCard\<close> (\<open>from_addr\<close>, \<open>to_addr\<close> are \<^verbatim>\<open>from\<close>, \<^verbatim>\<open>to\<close>).\<close>

function copy_entry :: "variant \<Rightarrow> eeprom \<Rightarrow> int \<Rightarrow> int \<Rightarrow> int \<Rightarrow> eeprom" where
  "copy_entry v e from_addr to_addr b =
     (if b < ENTRY_SIZE v then
        (let val = e (from_addr + b)
         in copy_entry v (e(to_addr + b := val)) from_addr to_addr (b + 1))
      else e)"
  by pat_completeness auto
termination
  by (relation "measure (\<lambda>(v, e, from_addr, to_addr, b). nat (ENTRY_SIZE v - b))") auto

declare copy_entry.simps [simp del]

function shift_entries :: "variant \<Rightarrow> eeprom \<Rightarrow> int \<Rightarrow> int \<Rightarrow> eeprom" where
  "shift_entries v e count i =
     (if i < count - 1 then
        shift_entries v (copy_entry v e (entryAddress v (i + 1)) (entryAddress v i) 0) count (i + 1)
      else e)"
  by pat_completeness auto
termination
  by (relation "measure (\<lambda>(v, e, count, i). nat (count - 1 - i))") auto

declare shift_entries.simps [simp del]

function zero_entry :: "variant \<Rightarrow> eeprom \<Rightarrow> int \<Rightarrow> int \<Rightarrow> eeprom" where
  "zero_entry v e addr b =
     (if b < ENTRY_SIZE v then zero_entry v (e(addr + b := 0)) addr (b + 1) else e)"
  by pat_completeness auto
termination
  by (relation "measure (\<lambda>(v, e, addr, b). nat (ENTRY_SIZE v - b))") auto

declare zero_entry.simps [simp del]

definition removeCard :: "variant \<Rightarrow> eeprom \<Rightarrow> byte list \<Rightarrow> byte \<Rightarrow> eeprom \<times> bool" where
  "removeCard v e uid len =
     (let idx = findIndex v e uid len in
      if idx < 0 then (e, False)
      else
        let count = readCount v e;
            e1 = shift_entries v e (uint count) idx;
            lastAddr = entryAddress v (uint count - 1);
            e2 = zero_entry v e1 lastAddr 0;
            e3 = writeCount v (count - 1) e2
        in (e3, True))"

function clear_loop :: "variant \<Rightarrow> eeprom \<Rightarrow> int \<Rightarrow> int \<Rightarrow> eeprom" where
  "clear_loop v e count i =
     (if i < count then clear_loop v (zero_entry v e (entryAddress v i) 0) count (i + 1)
      else e)"
  by pat_completeness auto
termination
  by (relation "measure (\<lambda>(v, e, count, i). nat (count - i))") auto

declare clear_loop.simps [simp del]

definition clearAuthorizedList :: "variant \<Rightarrow> eeprom \<Rightarrow> eeprom" where
  "clearAuthorizedList v e =
     (let count = readCount v e;
          e1 = clear_loop v e (uint count) 0
      in writeCount v 0 e1)"

definition isAuthorized :: "eeprom \<Rightarrow> byte list \<Rightarrow> byte \<Rightarrow> bool" where
  "isAuthorized e uid len = (findIndex Bare e uid len \<ge> 0)"

section \<open>Enumeration\<close>

text \<open>
  \<^verbatim>\<open>readNameFromEEPROM\<close> fills \<^verbatim>\<open>char buf[MAX_NAME_LEN + 1]\<close> with \<open>nlen\<close> stored bytes and a
  terminating NUL and builds a \<^verbatim>\<open>String\<close> from that C string, which ends at the first NUL.
  A stored length above \<open>MAX_NAME_LEN\<close> overruns the buffer; that undefined behaviour is
  the result \<open>None\<close>.
\<close>

function read_name_buf :: "eeprom \<Rightarrow> int \<Rightarrow> int \<Rightarrow> int \<Rightarrow> string" where
  "read_name_buf e addr nlen i =
     (if i < nlen then
        char_of (uint (e (addr + 1 + MAX_UID_LEN + 1 + i))) # read_name_buf e addr nlen (i + 1)
      else [])"
  by pat_completeness auto
termination
  by (relation "measure (\<lambda>(e, addr, nlen, i). nat (nlen - i))") auto

declare read_name_buf.simps [simp del]

definition readNameFromEEPROM :: "eeprom \<Rightarrow> int \<Rightarrow> string option" where
  "readNameFromEEPROM e index =
     (let addr = entryAddress Named index;
          storedUidLen = e addr;
          nlen = e (addr + 1 + MAX_UID_LEN) in
      if nlen = 0 then Some ''NoName''
      else if uint nlen > MAX_NAME_LEN then None
      else Some (takeWhile (\<lambda>c. c \<noteq> CHR 0x00) (read_name_buf e addr (uint nlen) 0)))"

text \<open>
  \<^verbatim>\<open>printAuthorizedList\<close>. The console output is modelled by the values handed to the
  print calls: the count, and for each entry its index, the \<open>ul\<close> bytes copied into
  \<^verbatim>\<open>buf[MAX_UID_LEN]\<close> for \<^verbatim>\<open>printUID\<close>, and (name-carrying sketch only) the name. A stored UID
  length above \<open>MAX_UID_LEN\<close> overruns \<^verbatim>\<open>buf\<close> and gives \<open>None\<close>.
\<close>

function read_uid_buf :: "eeprom \<Rightarrow> int \<Rightarrow> int \<Rightarrow> int \<Rightarrow> byte list" where
  "read_uid_buf e addr ul j =
     (if j < ul then e (addr + 1 + j) # read_uid_buf e addr ul (j + 1) else [])"
  by pat_completeness auto
termination
  by (relation "measure (\<lambda>(e, addr, ul, j). nat (ul - j))") auto

declare read_uid_buf.simps [simp del]

function print_loop ::
  "variant \<Rightarrow> eeprom \<Rightarrow> int \<Rightarrow> int \<Rightarrow> (int \<times> byte list \<times> string option) list option" where
  "print_loop v e count i =
     (if i < count then
        (let addr = entryAddress v i; ul = e addr in
         if uint ul > MAX_UID_LEN then None
         else
           let buf = read_uid_buf e addr (uint ul) 0 in
           case (case v of Bare \<Rightarrow> Some None
                 | Named \<Rightarrow> map_option Some (readNameFromEEPROM e i)) of
             None \<Rightarrow> None
           | Some name \<Rightarrow> map_option (\<lambda>rest. (i, buf, name) # rest) (print_loop v e count (i + 1)))
      else Some [])"
  by pat_completeness auto
termination
  by (relation "measure (\<lambda>(v, e, count, i). nat (count - i))") auto

declare print_loop.simps [simp del]

definition printAuthorizedList ::
  "variant \<Rightarrow> eeprom \<Rightarrow> (byte \<times> (int \<times> byte list \<times> string option) list) option" where
  "printAuthorizedList v e =
     (let count = readCount v e
      in map_option (\<lambda>entries. (count, entries)) (print_loop v e (uint count) 0))"

section \<open>The presence controller\<close>

text \<open>
  The sketch talks to three devices. Their future behaviour is given to the model as
  input:
  \<^item> the reader: one \<open>poll\<close> for every evaluation of
    \<^verbatim>\<open>PICC_IsNewCardPresent() && PICC_ReadCardSerial()\<close> (or of the two tests at the top of
    \<^verbatim>\<open>loop()\<close>): no new card, a card whose serial could not be read, or a card read, which
    leaves its size and bytes in the library's \<^verbatim>\<open>mfrc522.uid\<close>;
  \<^item> the serial port: one element for every call of \<^verbatim>\<open>Serial.available()\<close>, \<open>None\<close> when
    nothing is pending and \<open>Some c\<close> when the following \<^verbatim>\<open>Serial.read()\<close> returns \<open>c\<close>;
  \<^item> the clock: one 32-bit value for every call of \<^verbatim>\<open>millis()\<close>.
  A loop that needs an answer when its input is used up has not finished: its result
  is \<open>None\<close>. Console output, the LED and the buzzer do not influence anything modelled
  here and are left out, as are the \<^verbatim>\<open>delay\<close> calls.
\<close>

datatype poll = NoCard | ReadFail | CardRead byte "byte list"

record world =
  EEPROM :: eeprom
  currentUID :: "byte list"
  currentUIDLen :: byte
  uid_size :: byte
  uid_uidByte :: "byte list"
  serial :: "char option list"
  clock :: "32 word list"

subsection \<open>Reading a line\<close>

text \<open>The loop that consumes the rest of an over-long line, without blocking.\<close>

fun discard_line :: "char option list \<Rightarrow> char option list option" where
  "discard_line [] = None"
| "discard_line (None # ins) = Some ins"
| "discard_line (Some cc # ins) = (if cc = CHR 0x0A then Some ins else discard_line ins)"

text \<open>
  The two nested loops of \<^verbatim>\<open>readLineFromSerial\<close>, as one recursion over the answers of
  \<^verbatim>\<open>Serial.available()\<close>: a pending character is handled by the inner loop, an empty
  port ends the inner loop and leads to the timeout test.
\<close>

fun read_loop ::
  "32 word \<Rightarrow> 32 word \<Rightarrow> string \<Rightarrow> char option list \<Rightarrow> 32 word list
     \<Rightarrow> (string \<times> char option list \<times> 32 word list) option" where
  "read_loop timeoutMs start s [] clk = None"
| "read_loop timeoutMs start s (Some c # ins) clk =
     (if c = CHR 0x0D then read_loop timeoutMs start s ins clk
      else if c = CHR 0x0A then Some (s, ins, clk)
      else
        let s' = s @ [c] in
        if int (length s') \<ge> MAX_NAME_LEN then
          (case discard_line ins of None \<Rightarrow> None | Some ins' \<Rightarrow> Some (s', ins', clk))
        else read_loop timeoutMs start s' ins clk)"
| "read_loop timeoutMs start s (None # ins) clk =
     (if timeoutMs > 0 then
        (case clk of
           [] \<Rightarrow> None
         | now # clk' \<Rightarrow>
             if now - start > timeoutMs then Some ([], ins, clk')
             else read_loop timeoutMs start s ins clk')
      else read_loop timeoutMs start s ins clk)"

definition readLineFromSerial :: "32 word \<Rightarrow> world \<Rightarrow> (string \<times> world) option" where
  "readLineFromSerial timeoutMs w =
     (case clock w of
        [] \<Rightarrow> None
      | start # clk \<Rightarrow>
          (case read_loop timeoutMs start [] (serial w) clk of
             None \<Rightarrow> None
           | Some (s, ins, clk') \<Rightarrow> Some (s, w\<lparr>serial := ins, clock := clk'\<rparr>)))"

text \<open>
  \<^verbatim>\<open>String::trim\<close> of the Arduino core removes the white space (\<^verbatim>\<open>isspace\<close>) at both ends.
\<close>

definition isspace :: "char \<Rightarrow> bool" where
  "isspace c = (c = CHR '' '' \<or> c = CHR 0x09 \<or> c = CHR 0x0A \<or> c = CHR 0x0B
                \<or> c = CHR 0x0C \<or> c = CHR 0x0D)"

definition trim :: "string \<Rightarrow> string" where
  "trim s = rev (dropWhile isspace (rev (dropWhile isspace s)))"

subsection \<open>The dwell loop\<close>

text \<open>The command part of one iteration of \<^verbatim>\<open>waitWhileCardPresentAllowSerial\<close>.\<close>

definition service_serial :: "variant \<Rightarrow> world \<Rightarrow> world option" where
  "service_serial v w =
     (case serial w of
        [] \<Rightarrow> None
      | None # ins \<Rightarrow> Some (w\<lparr>serial := ins\<rparr>)
      | Some ch # ins \<Rightarrow>
          let w1 = w\<lparr>serial := ins\<rparr> in
          if ch = CHR ''a'' \<or> ch = CHR ''A'' then
            (case v of
               Bare \<Rightarrow>
                 Some (w1\<lparr>EEPROM := fst (addCard (EEPROM w1) (currentUID w1) (currentUIDLen w1))\<rparr>)
             | Named \<Rightarrow>
                 (case readLineFromSerial 30000 w1 of
                    None \<Rightarrow> None
                  | Some (name0, w2) \<Rightarrow>
                      let name = trim name0 in
                      if length name = 0 then Some w2
                      else Some (w2\<lparr>EEPROM :=
                        fst (addCardWithName (EEPROM w2) (currentUID w2) (currentUIDLen w2) name)\<rparr>)))
          else if ch = CHR ''r'' \<or> ch = CHR ''R'' then
            Some (w1\<lparr>EEPROM := fst (removeCard v (EEPROM w1) (currentUID w1) (currentUIDLen w1))\<rparr>)
          else if ch = CHR ''p'' \<or> ch = CHR ''P'' then
            (case printAuthorizedList v (EEPROM w1) of None \<Rightarrow> None | Some out \<Rightarrow> Some w1)
          else if ch = CHR ''c'' \<or> ch = CHR ''C'' then
            Some (w1\<lparr>EEPROM := clearAuthorizedList v (EEPROM w1)\<rparr>)
          else Some w1)"

text \<open>
  The loop itself, one poll per iteration. It returns the world and the polls left when
  the \<^verbatim>\<open>break\<close> is taken.
\<close>

fun wait_loop :: "variant \<Rightarrow> poll list \<Rightarrow> int \<Rightarrow> world \<Rightarrow> (world \<times> poll list) option" where
  "wait_loop v [] consecutiveNoCard w = None"
| "wait_loop v (p # ps) consecutiveNoCard w =
     (case service_serial v w of
        None \<Rightarrow> None
      | Some w1 \<Rightarrow>
          (case p of
             CardRead sz bs \<Rightarrow> wait_loop v ps 0 (w1\<lparr>uid_size := sz, uid_uidByte := bs\<rparr>)
           | _ \<Rightarrow>
               let n = consecutiveNoCard + 1 in
               if n > REMOVAL_CHECKS then Some (w1, ps) else wait_loop v ps n w1))"

definition waitWhileCardPresentAllowSerial ::
  "variant \<Rightarrow> poll list \<Rightarrow> world \<Rightarrow> (world \<times> poll list) option" where
  "waitWhileCardPresentAllowSerial v ps w = wait_loop v ps 0 w"

subsection \<open>The main loop\<close>

text \<open>The loop of \<^verbatim>\<open>loop()\<close> that copies the reader's UID into \<^verbatim>\<open>currentUID\<close>.\<close>

function copy_uid :: "byte list \<Rightarrow> byte list \<Rightarrow> int \<Rightarrow> int \<Rightarrow> byte list" where
  "copy_uid cur uidByte len i =
     (if i < len then copy_uid (cur[nat i := uidByte ! nat i]) uidByte len (i + 1) else cur)"
  by pat_completeness auto
termination
  by (relation "measure (\<lambda>(cur, uidByte, len, i). nat (len - i))") auto

declare copy_uid.simps [simp del]

definition read_uid :: "world \<Rightarrow> world" where
  "read_uid w =
     (let len0 = uid_size w;
          len = (if uint len0 > MAX_UID_LEN then word_of_int MAX_UID_LEN else len0)
      in w\<lparr>currentUIDLen := len,
            currentUID := copy_uid (currentUID w) (uid_uidByte w) (uint len) 0\<rparr>)"

definition handleSerialNoCard :: "variant \<Rightarrow> char \<Rightarrow> world \<Rightarrow> world option" where
  "handleSerialNoCard v c w =
     (if c = CHR ''p'' \<or> c = CHR ''P'' then
        (case printAuthorizedList v (EEPROM w) of None \<Rightarrow> None | Some out \<Rightarrow> Some w)
      else if c = CHR ''c'' \<or> c = CHR ''C'' then
        Some (w\<lparr>EEPROM := clearAuthorizedList v (EEPROM w)\<rparr>)
      else Some w)"

text \<open>
  One run of \<^verbatim>\<open>loop()\<close>. In the name-carrying sketch an authorized card has its name read
  for display before the dwell loop starts.
\<close>

definition loop :: "variant \<Rightarrow> poll list \<Rightarrow> world \<Rightarrow> (world \<times> poll list) option" where
  "loop v polls w =
     (case polls of
        [] \<Rightarrow> None
      | NoCard # ps \<Rightarrow>
          (case serial w of
             [] \<Rightarrow> None
           | None # ins \<Rightarrow> Some (w\<lparr>serial := ins\<rparr>, ps)
           | Some c # ins \<Rightarrow>
               map_option (\<lambda>w'. (w', ps)) (handleSerialNoCard v c (w\<lparr>serial := ins\<rparr>)))
      | ReadFail # ps \<Rightarrow> Some (w, ps)
      | CardRead sz bs # ps \<Rightarrow>
          let w1 = read_uid (w\<lparr>uid_size := sz, uid_uidByte := bs\<rparr>);
              idx = findIndex v (EEPROM w1) (currentUID w1) (currentUIDLen w1)
          in if v = Named \<and> idx \<ge> 0 \<and> readNameFromEEPROM (EEPROM w1) idx = None then None
             else waitWhileCardPresentAllowSerial v ps w1)"

section \<open>Vocabulary of the specification\<close>

text \<open>
  The definitions below are not code of the sketches; the theorems use them to speak
  about the registry. \<open>stored_uid v e i\<close> is the identifier held by slot \<open>i\<close>: as many
  bytes as its length byte says, read where \<^verbatim>\<open>findIndex\<close> reads them; \<open>stored_uids\<close> lists
  the identifiers of the live slots in storage order; \<open>slot\<close> is the whole record of a
  slot. The identifier meant by an argument pair \<^verbatim>\<open>(uid, len)\<close> is \<open>take (unat len) uid\<close>.
\<close>

text \<open>The test \<^verbatim>\<open>findIndex\<close> applies to slot \<open>j\<close>.\<close>

definition entry_matches :: "variant \<Rightarrow> eeprom \<Rightarrow> byte list \<Rightarrow> byte \<Rightarrow> int \<Rightarrow> bool" where
  "entry_matches v e uid len j =
     (e (entryAddress v j) = len \<and>
      (\<forall>k. 0 \<le> k \<and> k < uint len \<longrightarrow> e (entryAddress v j + 1 + k) = uid ! nat k))"

definition stored_uid :: "variant \<Rightarrow> eeprom \<Rightarrow> int \<Rightarrow> byte list" where
  "stored_uid v e i =
     map (\<lambda>k. e (entryAddress v i + 1 + int k)) [0..<unat (e (entryAddress v i))]"

definition stored_uids :: "variant \<Rightarrow> eeprom \<Rightarrow> byte list list" where
  "stored_uids v e = map (\<lambda>k. stored_uid v e (int k)) [0..<unat (readCount v e)]"

definition slot :: "variant \<Rightarrow> eeprom \<Rightarrow> int \<Rightarrow> byte list" where
  "slot v e i = map (\<lambda>b. e (entryAddress v i + int b)) [0..<nat (ENTRY_SIZE v)]"

text \<open>
  The registry invariant: the count is within the capacity, every live slot holds an
  identifier of 1 to \<open>MAX_UID_LEN\<close> bytes (a live slot is never an empty one), and no two
  live slots hold the same identifier.
\<close>

definition registry_inv :: "variant \<Rightarrow> eeprom \<Rightarrow> bool" where
  "registry_inv v e =
     (uint (readCount v e) \<le> MAX_CARDS v
      \<and> (\<forall>k \<in> {0..<unat (readCount v e)}.
            1 \<le> uint (e (entryAddress v (int k)))
            \<and> uint (e (entryAddress v (int k))) \<le> MAX_UID_LEN)
      \<and> distinct (stored_uids v e))"

text \<open>
  What a successful insert does to the EEPROM, as far as both sketches agree: the count
  goes up by one, the new slot holds the length and the zero-padded bytes, and every
  earlier slot is untouched.
\<close>

definition appended :: "variant \<Rightarrow> eeprom \<Rightarrow> eeprom \<Rightarrow> byte list \<Rightarrow> byte \<Rightarrow> bool" where
  "appended v e e' uid len =
     (uint (readCount v e) < MAX_CARDS v
      \<and> e' EEPROM_ADDR_COUNT = readCount v e + 1
      \<and> e' (entryAddress v (uint (readCount v e))) = len
      \<and> (\<forall>k. 0 \<le> k \<and> k < MAX_UID_LEN \<longrightarrow>
            e' (entryAddress v (uint (readCount v e)) + 1 + k)
              = (if k < uint len then uid ! nat k else 0))
      \<and> (\<forall>a. EEPROM_ADDR_START \<le> a \<and> a < entryAddress v (uint (readCount v e)) \<longrightarrow> e' a = e a))"

text \<open>A sequence of inserts into the bare registry, with the flag each one returned.\<close>

fun addCards :: "eeprom \<Rightarrow> (byte list \<times> byte) list \<Rightarrow> eeprom \<times> bool list" where
  "addCards e [] = (e, [])"
| "addCards e ((uid, len) # cs) =
     (let (e1, ok) = addCard e uid len;
          (e2, oks) = addCards e1 cs
      in (e2, ok # oks))"

definition ident :: "byte list \<times> byte \<Rightarrow> byte list" where
  "ident c = take (unat (snd c)) (fst c)"

text \<open>
  The records of the live slots, in storage order.
\<close>

definition slots :: "variant \<Rightarrow> eeprom \<Rightarrow> byte list list" where
  "slots v e = map (\<lambda>k. slot v e (int k)) [0..<unat (readCount v e)]"

text \<open>
  Whether a poll of the reader succeeded.
\<close>

definition poll_ok :: "poll \<Rightarrow> bool" where
  "poll_ok p = (case p of CardRead sz bs \<Rightarrow> True | _ \<Rightarrow> False)"

text \<open>
  The world without the reader library's \<^verbatim>\<open>mfrc522.uid\<close>.
\<close>

definition view :: "world \<Rightarrow> eeprom \<times> byte list \<times> byte \<times> char option list \<times> 32 word list" where
  "view w = (EEPROM w, currentUID w, currentUIDLen w, serial w, clock w)"

text \<open>
  The label bytes of slot \<open>i\<close> of the name-carrying sketch, as many as its name-length
  byte says, read where \<^verbatim>\<open>readNameFromEEPROM\<close> reads them.
\<close>

definition stored_label :: "eeprom \<Rightarrow> int \<Rightarrow> string" where
  "stored_label e i =
     map (\<lambda>k. char_of (uint (e (entryAddress Named i + 1 + MAX_UID_LEN + 1 + int k))))
       [0..<unat (e (entryAddress Named i + 1 + MAX_UID_LEN))]"



text \<open>
  What \<^verbatim>\<open>readNameFromEEPROM\<close> returns for the live slots, in storage order.
\<close>

definition stored_names :: "eeprom \<Rightarrow> string option list" where
  "stored_names e = map (\<lambda>k. readNameFromEEPROM e (int k)) [0..<unat (readCount Named e)]"

section \<open>Initialisation\<close>

lemma readCount_le: "uint (readCount v e) \<le> MAX_CARDS v"
  by (cases v) (simp_all add: readCount_def Let_def)

text \<open>
  C7. Initialisation resets the stored count to 0 exactly when the persisted count byte
  exceeds the capacity, leaves the EEPROM as it is when the count is in range, and
  running it twice gives the same EEPROM as running it once (both sketches).
\<close>

theorem setup_resets_corrupt_count_only:
  "sketch_setup v e =
     (if uint (e EEPROM_ADDR_COUNT) > MAX_CARDS v then e(EEPROM_ADDR_COUNT := 0) else e)
   \<and> sketch_setup v (sketch_setup v e) = sketch_setup v e"
  by (cases v) (simp_all add: sketch_setup_def countValid_def writeCount_def Let_def EEPROM_ADDR_COUNT_def)

section \<open>Arithmetic of addresses and bytes\<close>

lemma char_byte_roundtrip: "char_of (uint (of_char c :: byte)) = c"
proof -
  have "(of_char c :: byte) = word_of_int (of_char c)"
    by (simp add: of_int_of_char)
  then have "uint (of_char c :: byte) = (of_char c :: int) mod 256"
    by (simp add: uint_word_of_int take_bit_eq_mod)
  then show ?thesis by simp
qed

lemma ENTRY_SIZE_ge: "1 + MAX_UID_LEN \<le> ENTRY_SIZE v"
  by (cases v) (simp_all add: MAX_UID_LEN_def MAX_NAME_LEN_def)

lemma ENTRY_SIZE_pos: "0 < ENTRY_SIZE v"
  by (cases v) (simp_all add: MAX_UID_LEN_def MAX_NAME_LEN_def)

lemma entryAddress_Suc: "entryAddress v (i + 1) = entryAddress v i + ENTRY_SIZE v"
  by (simp add: entryAddress_def algebra_simps)

lemma entryAddress_mono: "i < j \<Longrightarrow> entryAddress v i + ENTRY_SIZE v \<le> entryAddress v j"
  by (cases v) (simp_all add: entryAddress_def MAX_UID_LEN_def MAX_NAME_LEN_def)

lemma entryAddress_ge: "0 \<le> i \<Longrightarrow> EEPROM_ADDR_START \<le> entryAddress v i"
  by (cases v) (simp_all add: entryAddress_def MAX_UID_LEN_def MAX_NAME_LEN_def)

section \<open>Lookup returns the first matching slot\<close>

lemma uid_match_iff:
  "uid_match e addr uid stLen i \<longleftrightarrow> (\<forall>j. i \<le> j \<and> j < stLen \<longrightarrow> e (addr + 1 + j) = uid ! nat j)"
proof (induction e addr uid stLen i rule: uid_match.induct)
  case (1 e addr uid stLen i)
  show ?case
  proof (cases "i < stLen")
    case False
    then show ?thesis by (subst uid_match.simps) auto
  next
    case True
    show ?thesis
    proof (cases "e (addr + 1 + i) = uid ! nat i")
      case False
      with True show ?thesis by (subst uid_match.simps) auto
    next
      case eq: True
      have "uid_match e addr uid stLen i = uid_match e addr uid stLen (i + 1)"
        using True eq by (subst uid_match.simps) simp
      also have "\<dots> = (\<forall>j. i + 1 \<le> j \<and> j < stLen \<longrightarrow> e (addr + 1 + j) = uid ! nat j)"
        using 1 True eq by simp
      also have "\<dots> = (\<forall>j. i \<le> j \<and> j < stLen \<longrightarrow> e (addr + 1 + j) = uid ! nat j)"
        using eq by (metis add1_zle_eq order_le_less)
      finally show ?thesis .
    qed
  qed
qed

lemma findIndex_loop_spec:
  "findIndex_loop v e uid len c i = r \<Longrightarrow>
     (r = - 1 \<and> (\<forall>j. i \<le> j \<and> j < c \<longrightarrow> \<not> entry_matches v e uid len j))
     \<or> (i \<le> r \<and> r < c \<and> entry_matches v e uid len r
         \<and> (\<forall>j. i \<le> j \<and> j < r \<longrightarrow> \<not> entry_matches v e uid len j))"
proof (induction v e uid len c i arbitrary: r rule: findIndex_loop.induct)
  case (1 v e uid len c i)
  show ?case
  proof (cases "i < c")
    case False
    with "1.prems" have "r = - 1" by (subst (asm) findIndex_loop.simps) simp
    with False show ?thesis by auto
  next
    case True
    show ?thesis
    proof (cases "entry_matches v e uid len i")
      case True
      with \<open>i < c\<close> "1.prems" have "r = i"
        by (subst (asm) findIndex_loop.simps) (auto simp: entry_matches_def uid_match_iff Let_def)
      with True \<open>i < c\<close> show ?thesis by auto
    next
      case False
      with \<open>i < c\<close> "1.prems" have step: "findIndex_loop v e uid len c (i + 1) = r"
        by (subst (asm) findIndex_loop.simps)
           (auto simp: entry_matches_def uid_match_iff Let_def split: if_splits)
      have "(r = - 1 \<and> (\<forall>j. i + 1 \<le> j \<and> j < c \<longrightarrow> \<not> entry_matches v e uid len j))
         \<or> (i + 1 \<le> r \<and> r < c \<and> entry_matches v e uid len r
         \<and> (\<forall>j. i + 1 \<le> j \<and> j < r \<longrightarrow> \<not> entry_matches v e uid len j))"
      proof (cases "e (entryAddress v i) \<noteq> len")
        case True
        then show ?thesis using "1.IH"(1)[OF \<open>i < c\<close> refl refl True step] by simp
      next
        case eq: False
        with False have "\<not> uid_match e (entryAddress v i) uid (uint (e (entryAddress v i))) 0"
          by (auto simp: entry_matches_def uid_match_iff)
        then show ?thesis using "1.IH"(2)[OF \<open>i < c\<close> refl refl eq _ step] by simp
      qed
      moreover have "\<And>j. i \<le> j \<Longrightarrow> \<not> entry_matches v e uid len j \<or> i + 1 \<le> j"
        using False by (metis add1_zle_eq order_le_less)
      ultimately show ?thesis by (smt (verit, best) False)
    qed
  qed
qed

lemma findIndex_spec:
  "(findIndex v e uid len = - 1 \<and>
      (\<forall>j. 0 \<le> j \<and> j < uint (readCount v e) \<longrightarrow> \<not> entry_matches v e uid len j))
   \<or> (0 \<le> findIndex v e uid len \<and> findIndex v e uid len < uint (readCount v e)
       \<and> entry_matches v e uid len (findIndex v e uid len)
       \<and> (\<forall>j. 0 \<le> j \<and> j < findIndex v e uid len \<longrightarrow> \<not> entry_matches v e uid len j))"
  unfolding findIndex_def using findIndex_loop_spec[OF refl] by blast

lemma findIndex_nonneg_iff:
  "0 \<le> findIndex v e uid len \<longleftrightarrow>
     (\<exists>j. 0 \<le> j \<and> j < uint (readCount v e) \<and> entry_matches v e uid len j)"
  using findIndex_spec[of v e uid len] by auto

lemma findIndex_neg_iff: "findIndex v e uid len < 0 \<longleftrightarrow> findIndex v e uid len = - 1"
  using findIndex_spec[of v e uid len] by auto

lemma entryAddress_mono_le: "i \<le> j \<Longrightarrow> entryAddress v i \<le> entryAddress v j"
  by (cases v) (simp_all add: entryAddress_def MAX_UID_LEN_def MAX_NAME_LEN_def)

section \<open>What the write loops leave in the EEPROM\<close>

lemma store_uid_effect:
  "0 \<le> i \<Longrightarrow> store_uid e addr uid len i a =
     (if addr + 1 + i \<le> a \<and> a < addr + 1 + MAX_UID_LEN
      then (if a - addr - 1 < uint len then uid ! nat (a - addr - 1) else 0)
      else e a)"
proof (induction e addr uid len i rule: store_uid.induct)
  case (1 e addr uid len i)
  show ?case
  proof (cases "i < MAX_UID_LEN")
    case False
    then show ?thesis by (subst store_uid.simps) auto
  next
    case True
    define b where "b = (if i < uint len then uid ! nat i else 0)"
    define e1 where "e1 = e(addr + 1 + i := b)"
    have "store_uid e addr uid len i a = store_uid e1 addr uid len (i + 1) a"
      using True by (subst store_uid.simps) (simp add: Let_def b_def e1_def)
    also have "\<dots> = (if addr + 1 + (i + 1) \<le> a \<and> a < addr + 1 + MAX_UID_LEN
      then (if a - addr - 1 < uint len then uid ! nat (a - addr - 1) else 0)
      else e1 a)"
      unfolding e1_def by (rule "1.IH"[OF True b_def]) (use "1.prems" in simp)
    also have "\<dots> = (if addr + 1 + i \<le> a \<and> a < addr + 1 + MAX_UID_LEN
      then (if a - addr - 1 < uint len then uid ! nat (a - addr - 1) else 0)
      else e a)"
      using True by (auto simp: b_def e1_def)
    finally show ?thesis .
  qed
qed

lemma store_name_effect:
  "0 \<le> i \<Longrightarrow> store_name e addr name nlen i a =
     (if addr + 1 + MAX_UID_LEN + 1 + i \<le> a \<and> a < addr + 1 + MAX_UID_LEN + 1 + MAX_NAME_LEN
      then (if a - (addr + 1 + MAX_UID_LEN + 1) < uint nlen
            then of_char (name ! nat (a - (addr + 1 + MAX_UID_LEN + 1))) else 0)
      else e a)"
proof (induction e addr name nlen i rule: store_name.induct)
  case (1 e addr name nlen i)
  show ?case
  proof (cases "i < MAX_NAME_LEN")
    case False
    then show ?thesis by (subst store_name.simps) auto
  next
    case True
    define b :: byte where "b = (if i < uint nlen then of_char (name ! nat i) else 0)"
    define e1 where "e1 = e(addr + 1 + MAX_UID_LEN + 1 + i := b)"
    have "store_name e addr name nlen i a = store_name e1 addr name nlen (i + 1) a"
      using True by (subst store_name.simps) (simp add: Let_def b_def e1_def)
    also have "\<dots> = (if addr + 1 + MAX_UID_LEN + 1 + (i + 1) \<le> a
        \<and> a < addr + 1 + MAX_UID_LEN + 1 + MAX_NAME_LEN
      then (if a - (addr + 1 + MAX_UID_LEN + 1) < uint nlen
            then of_char (name ! nat (a - (addr + 1 + MAX_UID_LEN + 1))) else 0)
      else e1 a)"
      unfolding e1_def by (rule "1.IH"[OF True b_def]) (use "1.prems" in simp)
    also have "\<dots> = (if addr + 1 + MAX_UID_LEN + 1 + i \<le> a
        \<and> a < addr + 1 + MAX_UID_LEN + 1 + MAX_NAME_LEN
      then (if a - (addr + 1 + MAX_UID_LEN + 1) < uint nlen
            then of_char (name ! nat (a - (addr + 1 + MAX_UID_LEN + 1))) else 0)
      else e a)"
      using True by (auto simp: b_def e1_def)
    finally show ?thesis .
  qed
qed

lemma zero_entry_effect:
  "0 \<le> b \<Longrightarrow> zero_entry v e addr b a =
     (if addr + b \<le> a \<and> a < addr + ENTRY_SIZE v then 0 else e a)"
proof (induction v e addr b rule: zero_entry.induct)
  case (1 v e addr b)
  show ?case
  proof (cases "b < ENTRY_SIZE v")
    case False
    then show ?thesis by (subst zero_entry.simps) auto
  next
    case True
    define e1 where "e1 = e(addr + b := 0)"
    have "zero_entry v e addr b a = zero_entry v e1 addr (b + 1) a"
      using True by (subst zero_entry.simps) (simp add: e1_def)
    also have "\<dots> = (if addr + (b + 1) \<le> a \<and> a < addr + ENTRY_SIZE v then 0 else e1 a)"
      unfolding e1_def by (rule "1.IH"[OF True]) (use "1.prems" in simp)
    also have "\<dots> = (if addr + b \<le> a \<and> a < addr + ENTRY_SIZE v then 0 else e a)"
      using True by (auto simp: e1_def)
    finally show ?thesis .
  qed
qed

lemma copy_entry_effect:
  "0 \<le> b \<Longrightarrow> copy_entry v e (t + ENTRY_SIZE v) t b a =
     (if t + b \<le> a \<and> a < t + ENTRY_SIZE v then e (a + ENTRY_SIZE v) else e a)"
proof (induction v e "t + ENTRY_SIZE v" t b rule: copy_entry.induct)
  case (1 v e t b)
  show ?case
  proof (cases "b < ENTRY_SIZE v")
    case False
    then show ?thesis by (subst copy_entry.simps) auto
  next
    case True
    define val where "val = e (t + ENTRY_SIZE v + b)"
    define e1 where "e1 = e(t + b := val)"
    have "copy_entry v e (t + ENTRY_SIZE v) t b a = copy_entry v e1 (t + ENTRY_SIZE v) t (b + 1) a"
      using True by (subst copy_entry.simps) (simp add: Let_def val_def e1_def)
    also have "\<dots> = (if t + (b + 1) \<le> a \<and> a < t + ENTRY_SIZE v
                      then e1 (a + ENTRY_SIZE v) else e1 a)"
      unfolding e1_def by (rule "1.hyps"[OF True val_def]) (use "1.prems" in simp)
    also have "\<dots> = (if t + b \<le> a \<and> a < t + ENTRY_SIZE v then e (a + ENTRY_SIZE v) else e a)"
      using True "1.prems" by (auto simp: e1_def val_def algebra_simps)
    finally show ?thesis .
  qed
qed

lemma shift_entries_effect:
  "shift_entries v e count i a =
     (if entryAddress v i \<le> a \<and> a < entryAddress v (count - 1) then e (a + ENTRY_SIZE v)
      else e a)"
proof (induction v e count i rule: shift_entries.induct)
  case (1 v e count i)
  show ?case
  proof (cases "i < count - 1")
    case False
    then have "entryAddress v (count - 1) \<le> entryAddress v i"
      by (intro entryAddress_mono_le) simp
    with False show ?thesis by (subst shift_entries.simps) auto
  next
    case True
    define e1 where "e1 = copy_entry v e (entryAddress v (i + 1)) (entryAddress v i) 0"
    have e1: "e1 x = (if entryAddress v i \<le> x \<and> x < entryAddress v (i + 1)
                      then e (x + ENTRY_SIZE v) else e x)" for x
      unfolding e1_def entryAddress_Suc using copy_entry_effect[of 0 v e "entryAddress v i" x]
      by simp
    have le: "entryAddress v (i + 1) \<le> entryAddress v (count - 1)"
      using True by (intro entryAddress_mono_le) simp
    have "shift_entries v e count i a = shift_entries v e1 count (i + 1) a"
      using True by (subst shift_entries.simps) (simp add: e1_def)
    also have "\<dots> = (if entryAddress v (i + 1) \<le> a \<and> a < entryAddress v (count - 1)
                      then e1 (a + ENTRY_SIZE v) else e1 a)"
      unfolding e1_def by (rule "1.IH"[OF True])
    also have "\<dots> = (if entryAddress v i \<le> a \<and> a < entryAddress v (count - 1)
                      then e (a + ENTRY_SIZE v) else e a)"
      using le ENTRY_SIZE_pos[of v] by (auto simp: e1 entryAddress_Suc)
    finally show ?thesis .
  qed
qed

section \<open>Stored identifiers\<close>

lemma uint_unat: "uint (w :: byte) = int (unat w)"
  by simp

lemma int_less_uint_iff: "int k < uint (w :: byte) \<longleftrightarrow> k < unat w"
  by (metis uint_unat of_nat_less_iff)

lemma nat_less_unat_iff: "0 \<le> j \<Longrightarrow> nat j < unat (w :: byte) \<longleftrightarrow> j < uint w"
  by (metis uint_unat nat_less_iff)

lemma uint_less_int_iff: "uint (w :: byte) < int n \<longleftrightarrow> unat w < n"
  by (metis uint_unat of_nat_less_iff)

lemma length_stored_uid: "length (stored_uid v e i) = unat (e (entryAddress v i))"
  by (simp add: stored_uid_def)

lemma entry_matches_iff:
  assumes "unat len \<le> length uid"
  shows "entry_matches v e uid len j \<longleftrightarrow> stored_uid v e j = take (unat len) uid"
proof
  assume m: "entry_matches v e uid len j"
  then have l: "e (entryAddress v j) = len" by (simp add: entry_matches_def)
  show "stored_uid v e j = take (unat len) uid"
  proof (rule nth_equalityI)
    show "length (stored_uid v e j) = length (take (unat len) uid)"
      using assms l by (simp add: length_stored_uid)
  next
    fix k assume "k < length (stored_uid v e j)"
    then have k: "k < unat len" using l by (simp add: length_stored_uid)
    then have "int k < uint len" by (simp add: int_less_uint_iff nat_less_unat_iff)
    then have "e (entryAddress v j + 1 + int k) = uid ! nat (int k)"
      using m by (simp add: entry_matches_def)
    then show "stored_uid v e j ! k = take (unat len) uid ! k"
      using k l by (simp add: stored_uid_def)
  qed
next
  assume eq: "stored_uid v e j = take (unat len) uid"
  then have "length (stored_uid v e j) = length (take (unat len) uid)" by simp
  then have "unat (e (entryAddress v j)) = unat len"
    using assms by (simp add: length_stored_uid)
  then have l: "e (entryAddress v j) = len" by (rule word_unat_eq_iff[THEN iffD2])
  have "e (entryAddress v j + 1 + k) = uid ! nat k" if "0 \<le> k" "k < uint len" for k
  proof -
    have k: "nat k < unat len" using that by (simp add: int_less_uint_iff nat_less_unat_iff)
    have "stored_uid v e j ! nat k = take (unat len) uid ! nat k" using eq by simp
    then show ?thesis using k l that by (simp add: stored_uid_def)
  qed
  with l show "entry_matches v e uid len j" by (simp add: entry_matches_def)
qed

lemma findIndex_nonneg_iff_stored:
  assumes "unat len \<le> length uid"
  shows "0 \<le> findIndex v e uid len \<longleftrightarrow> take (unat len) uid \<in> set (stored_uids v e)"
proof -
  have "(\<exists>j. 0 \<le> j \<and> j < uint (readCount v e) \<and> stored_uid v e j = take (unat len) uid)
      \<longleftrightarrow> (\<exists>k < unat (readCount v e). stored_uid v e (int k) = take (unat len) uid)"
  proof
    assume "\<exists>j. 0 \<le> j \<and> j < uint (readCount v e) \<and> stored_uid v e j = take (unat len) uid"
    then obtain j where "0 \<le> j" "j < uint (readCount v e)" "stored_uid v e j = take (unat len) uid"
      by blast
    then have "nat j < unat (readCount v e) \<and> stored_uid v e (int (nat j)) = take (unat len) uid"
      by (simp add: int_less_uint_iff nat_less_unat_iff)
    then show "\<exists>k < unat (readCount v e). stored_uid v e (int k) = take (unat len) uid" by blast
  next
    assume "\<exists>k < unat (readCount v e). stored_uid v e (int k) = take (unat len) uid"
    then obtain k where "k < unat (readCount v e)" "stored_uid v e (int k) = take (unat len) uid"
      by blast
    then have "0 \<le> int k \<and> int k < uint (readCount v e) \<and> stored_uid v e (int k) = take (unat len) uid"
      by (simp add: int_less_uint_iff nat_less_unat_iff)
    then show "\<exists>j. 0 \<le> j \<and> j < uint (readCount v e) \<and> stored_uid v e j = take (unat len) uid"
      by blast
  qed
  moreover have "take (unat len) uid \<in> set (stored_uids v e)
      \<longleftrightarrow> (\<exists>k < unat (readCount v e). stored_uid v e (int k) = take (unat len) uid)"
  proof
    assume "take (unat len) uid \<in> set (stored_uids v e)"
    then show "\<exists>k < unat (readCount v e). stored_uid v e (int k) = take (unat len) uid"
      by (auto simp: stored_uids_def)
  next
    assume "\<exists>k < unat (readCount v e). stored_uid v e (int k) = take (unat len) uid"
    then obtain k where k: "k < unat (readCount v e)"
      and "stored_uid v e (int k) = take (unat len) uid" by blast
    then have "take (unat len) uid = (\<lambda>k. stored_uid v e (int k)) k" by simp
    with k show "take (unat len) uid \<in> set (stored_uids v e)"
      unfolding stored_uids_def set_map by (intro image_eqI[where x = k]) auto
  qed
  ultimately show ?thesis
    unfolding findIndex_nonneg_iff by (simp add: entry_matches_iff[OF assms])
qed

lemma findIndex_at:
  assumes "unat len \<le> length uid" "k < unat (readCount v e)"
    and "stored_uids v e ! k = take (unat len) uid" "distinct (stored_uids v e)"
  shows "findIndex v e uid len = int k"
proof -
  have len: "length (stored_uids v e) = unat (readCount v e)" by (simp add: stored_uids_def)
  have mk: "entry_matches v e uid len (int k)"
    using assms by (simp add: entry_matches_iff stored_uids_def)
  have kk: "0 \<le> int k \<and> int k < uint (readCount v e)" using assms(2) by (simp add: int_less_uint_iff nat_less_unat_iff)
  define r where "r = findIndex v e uid len"
  from findIndex_spec[of v e uid len] mk kk
  have r: "0 \<le> r" "r < uint (readCount v e)" "entry_matches v e uid len r"
    unfolding r_def by auto
  then have "nat r < unat (readCount v e)" by (simp add: int_less_uint_iff nat_less_unat_iff)
  moreover have "stored_uids v e ! nat r = take (unat len) uid"
    using r calculation assms(1) by (simp add: entry_matches_iff[symmetric] stored_uids_def)
  ultimately have "nat r = k"
    using assms len by (metis nth_eq_iff_index_eq)
  with r show ?thesis unfolding r_def by simp
qed

section \<open>Insert\<close>

lemma MAX_CARDS_le: "MAX_CARDS v \<le> 40"
  by (cases v) simp_all

lemma uint_succ_byte: "uint (x :: byte) < 255 \<Longrightarrow> uint (x + 1) = uint x + 1"
  by (simp add: uint_word_ariths take_bit_eq_mod)

lemma unat_succ_byte: "uint (x :: byte) < 255 \<Longrightarrow> unat (x + 1) = Suc (unat x)"
  using uint_succ_byte[of x] by (metis Suc_eq_plus1 int_ops(4) nat_int uint_unat)

lemma appended_count:
  assumes "appended v e e' uid len"
  shows "readCount v e' = readCount v e + 1"
    and "uint (readCount v e') = uint (readCount v e) + 1"
    and "unat (readCount v e') = Suc (unat (readCount v e))"
proof -
  have lt: "uint (readCount v e) < MAX_CARDS v" and c: "e' EEPROM_ADDR_COUNT = readCount v e + 1"
    using assms by (simp_all add: appended_def)
  have lt255: "uint (readCount v e) < 255" using lt MAX_CARDS_le[of v] by simp
  have u: "uint (readCount v e + 1) = uint (readCount v e) + 1"
    using lt255 by (rule uint_succ_byte)
  show 1: "readCount v e' = readCount v e + 1"
    using lt c u by (simp add: readCount_def[of v e'] Let_def)
  show "uint (readCount v e') = uint (readCount v e) + 1" using 1 u by simp
  show "unat (readCount v e') = Suc (unat (readCount v e))"
    using 1 unat_succ_byte[OF lt255] by simp
qed

lemma stored_uid_frame:
  assumes "\<And>a. entryAddress v i \<le> a \<Longrightarrow> a < entryAddress v i + 1 + MAX_UID_LEN \<Longrightarrow> e' a = e a"
    and "uint (e (entryAddress v i)) \<le> MAX_UID_LEN"
  shows "stored_uid v e' i = stored_uid v e i"
proof -
  have l: "e' (entryAddress v i) = e (entryAddress v i)"
    using assms(1)[of "entryAddress v i"] by (simp add: MAX_UID_LEN_def)
  have "e' (entryAddress v i + 1 + int k) = e (entryAddress v i + 1 + int k)"
    if "k < unat (e (entryAddress v i))" for k
  proof -
    have "int k < uint (e (entryAddress v i))" using that by (simp add: int_less_uint_iff)
    with assms(2) show ?thesis by (intro assms(1)) auto
  qed
  then show ?thesis unfolding stored_uid_def l by simp
qed

lemma appended_old:
  assumes "appended v e e' uid len" "k < unat (readCount v e)"
    and "uint (e (entryAddress v (int k))) \<le> MAX_UID_LEN"
  shows "stored_uid v e' (int k) = stored_uid v e (int k)"
    and "e' (entryAddress v (int k)) = e (entryAddress v (int k))"
proof -
  have lt: "int k < uint (readCount v e)" using assms(2) by (simp add: int_less_uint_iff)
  have fr: "e' a = e a" if "entryAddress v (int k) \<le> a" "a < entryAddress v (int k) + ENTRY_SIZE v" for a
  proof -
    have "a < entryAddress v (uint (readCount v e))"
      using entryAddress_mono[OF lt, of v] that by simp
    moreover have "EEPROM_ADDR_START \<le> a" using entryAddress_ge[of "int k" v] that by simp
    ultimately show ?thesis using assms(1) by (simp add: appended_def)
  qed
  show "stored_uid v e' (int k) = stored_uid v e (int k)"
    using ENTRY_SIZE_ge[of v] by (intro stored_uid_frame fr assms(3)) auto
  show "e' (entryAddress v (int k)) = e (entryAddress v (int k))"
    using ENTRY_SIZE_pos[of v] by (intro fr) auto
qed

lemma appended_new:
  assumes "appended v e e' uid len" "uint len \<le> MAX_UID_LEN" "unat len \<le> length uid"
  shows "stored_uid v e' (uint (readCount v e)) = take (unat len) uid"
proof -
  define c where "c = uint (readCount v e)"
  have l: "e' (entryAddress v c) = len" using assms(1) by (simp add: appended_def c_def)
  have b: "e' (entryAddress v c + 1 + int k) = uid ! k" if "k < unat len" for k
  proof -
    have "int k < uint len" using that by (simp add: int_less_uint_iff)
    moreover from this assms(2) have "0 \<le> int k \<and> int k < MAX_UID_LEN" by simp
    ultimately show ?thesis using assms(1) by (simp add: appended_def c_def)
  qed
  show ?thesis unfolding c_def[symmetric]
    by (rule nth_equalityI) (use l b assms(3) in \<open>simp_all add: stored_uid_def\<close>)
qed

lemma appended_stored_uids:
  assumes "appended v e e' uid len" "uint len \<le> MAX_UID_LEN" "unat len \<le> length uid"
    and "\<forall>k \<in> {0..<unat (readCount v e)}. uint (e (entryAddress v (int k))) \<le> MAX_UID_LEN"
  shows "stored_uids v e' = stored_uids v e @ [take (unat len) uid]"
proof -
  have "map (\<lambda>k. stored_uid v e' (int k)) [0..<unat (readCount v e)]
      = map (\<lambda>k. stored_uid v e (int k)) [0..<unat (readCount v e)]"
    using appended_old(1)[OF assms(1)] assms(4) by (intro map_cong) auto
  moreover have "stored_uid v e' (int (unat (readCount v e))) = take (unat len) uid"
    using appended_new[OF assms(1-3)] by simp
  ultimately show ?thesis
    by (simp add: stored_uids_def appended_count(3)[OF assms(1)])
qed

lemma appended_inv:
  assumes "appended v e e' uid len" "registry_inv v e"
    and "len \<noteq> 0" "uint len \<le> MAX_UID_LEN" "unat len \<le> length uid"
    and "take (unat len) uid \<notin> set (stored_uids v e)"
  shows "registry_inv v e'"
proof -
  have old: "\<forall>k \<in> {0..<unat (readCount v e)}. 1 \<le> uint (e (entryAddress v (int k)))
            \<and> uint (e (entryAddress v (int k))) \<le> MAX_UID_LEN"
    and d: "distinct (stored_uids v e)"
    using assms(2) by (simp_all add: registry_inv_def)
  have su: "stored_uids v e' = stored_uids v e @ [take (unat len) uid]"
    using old by (intro appended_stored_uids assms) auto
  have "1 \<le> uint (e' (entryAddress v (int k))) \<and> uint (e' (entryAddress v (int k))) \<le> MAX_UID_LEN"
    if "k < Suc (unat (readCount v e))" for k
  proof (cases "k < unat (readCount v e)")
    case True
    with old appended_old(2)[OF assms(1) True] show ?thesis by simp
  next
    case False
    with that have "k = unat (readCount v e)" by simp
    then have "int k = uint (readCount v e)" by simp
    then have "e' (entryAddress v (int k)) = len" using assms(1) by (simp add: appended_def)
    moreover have "uint len \<noteq> 0" using assms(3) by (simp add: uint_0_iff)
    then have "1 \<le> uint len" using uint_ge_0[of len] by linarith
    ultimately show ?thesis using assms(4) by simp
  qed
  then show ?thesis
    using d assms(6) readCount_le[of v e']
    by (simp add: registry_inv_def su appended_count(3)[OF assms(1)])
qed

lemma writeCount_effect:
  "uint val \<le> MAX_CARDS v \<Longrightarrow> writeCount v val e a = (if a = EEPROM_ADDR_COUNT then val else e a)"
  by (simp add: writeCount_def)

lemma entryAddress_neq_count: "0 \<le> i \<Longrightarrow> EEPROM_ADDR_COUNT < entryAddress v i"
  using entryAddress_ge[of i v] by (simp add: EEPROM_ADDR_COUNT_def EEPROM_ADDR_START_def)

lemma addCard_fails_iff:
  "\<not> snd (addCard e uid len) \<longleftrightarrow>
     len = 0 \<or> uint (readCount Bare e) = MAX_CARDS Bare \<or> 0 \<le> findIndex Bare e uid len"
  using readCount_le[of Bare e] by (auto simp: addCard_def Let_def)

lemma addCard_failed_unchanged: "\<not> snd (addCard e uid len) \<Longrightarrow> fst (addCard e uid len) = e"
  by (auto simp: addCard_def Let_def split: if_splits)

lemma addCardWithName_fails_iff:
  "\<not> snd (addCardWithName e uid len name) \<longleftrightarrow>
     len = 0 \<or> uint (readCount Named e) = MAX_CARDS Named \<or> 0 \<le> findIndex Named e uid len"
  using readCount_le[of Named e] by (auto simp: addCardWithName_def Let_def)

lemma addCardWithName_failed_unchanged:
  "\<not> snd (addCardWithName e uid len name) \<Longrightarrow> fst (addCardWithName e uid len name) = e"
  by (auto simp: addCardWithName_def Let_def split: if_splits)

lemma addCard_effect:
  assumes "snd (addCard e uid len)"
  shows "fst (addCard e uid len) a =
     (let addr = entryAddress Bare (uint (readCount Bare e)) in
      if a = EEPROM_ADDR_COUNT then readCount Bare e + 1
      else if a = addr then len
      else if addr + 1 \<le> a \<and> a < addr + 1 + MAX_UID_LEN
        then (if a - addr - 1 < uint len then uid ! nat (a - addr - 1) else 0)
      else e a)"
proof -
  define c where "c = readCount Bare e"
  define addr where "addr = entryAddress Bare (uint c)"
  have ok: "len \<noteq> 0" "uint c < MAX_CARDS Bare" "\<not> 0 \<le> findIndex Bare e uid len"
    using assms addCard_fails_iff[of e uid len] readCount_le[of Bare e] by (auto simp: c_def)
  have u: "uint (c + 1) \<le> MAX_CARDS Bare"
    using ok(2) uint_succ_byte[of c] by simp
  have r: "fst (addCard e uid len) = writeCount Bare (c + 1) (store_uid (e(addr := len)) addr uid len 0)"
    using ok by (simp add: addCard_def Let_def c_def addr_def)
  have "EEPROM_ADDR_COUNT < addr" unfolding addr_def by (rule entryAddress_neq_count) simp
  then show ?thesis
    unfolding r c_def[symmetric] addr_def[symmetric] Let_def
    by (simp add: writeCount_effect[OF u] store_uid_effect)
qed

lemma addCard_appended:
  assumes "snd (addCard e uid len)"
  shows "appended Bare e (fst (addCard e uid len)) uid len"
proof -
  define addr where "addr = entryAddress Bare (uint (readCount Bare e))"
  have lt: "uint (readCount Bare e) < MAX_CARDS Bare"
    using assms addCard_fails_iff[of e uid len] readCount_le[of Bare e] by auto
  have c: "EEPROM_ADDR_COUNT < addr" unfolding addr_def by (rule entryAddress_neq_count) simp
  have s: "EEPROM_ADDR_COUNT < EEPROM_ADDR_START"
    by (simp add: EEPROM_ADDR_COUNT_def EEPROM_ADDR_START_def)
  show ?thesis
    unfolding appended_def addCard_effect[OF assms] Let_def addr_def[symmetric]
    using lt c s by auto
qed

lemma addCardWithName_effect:
  assumes "snd (addCardWithName e uid len name0)"
  shows "fst (addCardWithName e uid len name0) a =
     (let addr = entryAddress Named (uint (readCount Named e));
          name = take (nat MAX_NAME_LEN) name0 in
      if a = EEPROM_ADDR_COUNT then readCount Named e + 1
      else if a = addr then len
      else if addr + 1 \<le> a \<and> a < addr + 1 + MAX_UID_LEN
        then (if a - addr - 1 < uint len then uid ! nat (a - addr - 1) else 0)
      else if a = addr + 1 + MAX_UID_LEN then word_of_nat (length name)
      else if addr + 1 + MAX_UID_LEN + 1 \<le> a \<and> a < addr + 1 + MAX_UID_LEN + 1 + MAX_NAME_LEN
        then (if a - (addr + 1 + MAX_UID_LEN + 1) < int (length name)
              then of_char (name ! nat (a - (addr + 1 + MAX_UID_LEN + 1))) else 0)
      else e a)"
proof -
  define c where "c = readCount Named e"
  define addr where "addr = entryAddress Named (uint c)"
  define name where "name = take (nat MAX_NAME_LEN) name0"
  define nlen :: byte where "nlen = word_of_nat (length name)"
  have name: "(if int (length name0) > MAX_NAME_LEN then take (nat MAX_NAME_LEN) name0 else name0) = name"
    by (simp add: name_def)
  have "length name \<le> 20" by (simp add: name_def MAX_NAME_LEN_def)
  then have "unat nlen = length name"
    unfolding nlen_def by (simp add: unat_of_nat)
  then have nl: "uint nlen = int (length name)"
    by (metis uint_unat)
  have ok: "len \<noteq> 0" "uint c < MAX_CARDS Named" "\<not> 0 \<le> findIndex Named e uid len"
    using assms addCardWithName_fails_iff[of e uid len name0] readCount_le[of Named e]
    by (auto simp: c_def)
  have u: "uint (c + 1) \<le> MAX_CARDS Named"
    using ok(2) uint_succ_byte[of c] by simp
  have r: "fst (addCardWithName e uid len name0) =
      writeCount Named (c + 1)
        (store_name ((store_uid (e(addr := len)) addr uid len 0)(addr + 1 + MAX_UID_LEN := nlen))
           addr name nlen 0)"
    using ok unfolding addCardWithName_def name Let_def
    by (simp add: c_def addr_def nlen_def)
  have "EEPROM_ADDR_COUNT < addr" unfolding addr_def by (rule entryAddress_neq_count) simp
  then show ?thesis
    unfolding r c_def[symmetric] addr_def[symmetric] Let_def name_def[symmetric] nlen_def[symmetric]
    by (simp add: writeCount_effect[OF u] store_uid_effect store_name_effect nl
          MAX_UID_LEN_def MAX_NAME_LEN_def)
qed

lemma addCardWithName_appended:
  assumes "snd (addCardWithName e uid len name0)"
  shows "appended Named e (fst (addCardWithName e uid len name0)) uid len"
proof -
  define addr where "addr = entryAddress Named (uint (readCount Named e))"
  have lt: "uint (readCount Named e) < MAX_CARDS Named"
    using assms addCardWithName_fails_iff[of e uid len name0] readCount_le[of Named e] by auto
  have c: "EEPROM_ADDR_COUNT < addr" unfolding addr_def by (rule entryAddress_neq_count) simp
  have s: "EEPROM_ADDR_COUNT < EEPROM_ADDR_START"
    by (simp add: EEPROM_ADDR_COUNT_def EEPROM_ADDR_START_def)
  show ?thesis
    unfolding appended_def addCardWithName_effect[OF assms] Let_def addr_def[symmetric]
    using lt c s by (auto simp: MAX_UID_LEN_def)
qed

lemma length_stored_uids: "length (stored_uids v e) = unat (readCount v e)"
  by (simp add: stored_uids_def)

lemma addCard_success_spec:
  assumes "registry_inv Bare e" "unat (readCount Bare e) < 40"
    and "len \<noteq> 0" "uint len \<le> MAX_UID_LEN" "unat len \<le> length uid"
    and "take (unat len) uid \<notin> set (stored_uids Bare e)"
  shows "snd (addCard e uid len)"
    and "stored_uids Bare (fst (addCard e uid len)) = stored_uids Bare e @ [take (unat len) uid]"
    and "registry_inv Bare (fst (addCard e uid len))"
proof -
  have "uint (readCount Bare e) < 40"
    using assms(2) uint_less_int_iff[of "readCount Bare e" 40] by simp
  then show ok: "snd (addCard e uid len)"
    using assms(3,6) findIndex_nonneg_iff_stored[OF assms(5), of Bare e]
      addCard_fails_iff[of e uid len] by auto
  have old: "\<forall>k \<in> {0..<unat (readCount Bare e)}. uint (e (entryAddress Bare (int k))) \<le> MAX_UID_LEN"
    using assms(1) by (simp add: registry_inv_def)
  show "stored_uids Bare (fst (addCard e uid len)) = stored_uids Bare e @ [take (unat len) uid]"
    by (rule appended_stored_uids[OF addCard_appended[OF ok] assms(4,5) old])
  show "registry_inv Bare (fst (addCard e uid len))"
    by (rule appended_inv[OF addCard_appended[OF ok] assms(1,3,4,5,6)])
qed

lemma addCards_spec:
  assumes "registry_inv Bare e" "unat (readCount Bare e) + length cs \<le> 40"
    and "\<forall>c \<in> set cs. snd c \<noteq> 0 \<and> uint (snd c) \<le> MAX_UID_LEN \<and> unat (snd c) \<le> length (fst c)"
    and "distinct (map ident cs)" "set (map ident cs) \<inter> set (stored_uids Bare e) = {}"
  shows "snd (addCards e cs) = replicate (length cs) True
     \<and> stored_uids Bare (fst (addCards e cs)) = stored_uids Bare e @ map ident cs
     \<and> registry_inv Bare (fst (addCards e cs))"
  using assms
proof (induction cs arbitrary: e)
  case Nil
  then show ?case by simp
next
  case (Cons c cs)
  obtain uid len where c: "c = (uid, len)" by (cases c)
  define e1 where "e1 = fst (addCard e uid len)"
  have h: "len \<noteq> 0" "uint len \<le> MAX_UID_LEN" "unat len \<le> length uid"
    using Cons.prems(3) by (simp_all add: c)
  have nin: "take (unat len) uid \<notin> set (stored_uids Bare e)"
    using Cons.prems(5) by (simp add: c ident_def)
  have lt: "unat (readCount Bare e) < 40" using Cons.prems(2) by simp
  note s = addCard_success_spec[OF Cons.prems(1) lt h nin]
  have cnt: "unat (readCount Bare e1) = Suc (unat (readCount Bare e))"
    using s(2) length_stored_uids[of Bare e1] length_stored_uids[of Bare e]
    by (simp add: e1_def)
  have ih: "snd (addCards e1 cs) = replicate (length cs) True
     \<and> stored_uids Bare (fst (addCards e1 cs)) = stored_uids Bare e1 @ map ident cs
     \<and> registry_inv Bare (fst (addCards e1 cs))"
  proof (rule Cons.IH)
    show "registry_inv Bare e1" using s(3) by (simp add: e1_def)
    show "unat (readCount Bare e1) + length cs \<le> 40" using Cons.prems(2) cnt by simp
    show "\<forall>c \<in> set cs. snd c \<noteq> 0 \<and> uint (snd c) \<le> MAX_UID_LEN \<and> unat (snd c) \<le> length (fst c)"
      using Cons.prems(3) by simp
    show "distinct (map ident cs)" using Cons.prems(4) by simp
    show "set (map ident cs) \<inter> set (stored_uids Bare e1) = {}"
      using Cons.prems(4,5) s(2) by (auto simp: e1_def c ident_def)
  qed
  have unf: "addCards e (c # cs) = (fst (addCards e1 cs), snd (addCard e uid len) # snd (addCards e1 cs))"
    by (simp add: c e1_def split: prod.splits)
  show ?case
    unfolding unf using ih s(1,2) by (simp add: e1_def c ident_def)
qed

lemma registry_inv_empty: "readCount v e = 0 \<Longrightarrow> registry_inv v e"
  using readCount_le[of v e] by (simp add: registry_inv_def stored_uids_def)

text \<open>
  C1. Starting from an empty bare registry, a sequence of at most \<open>MAX_CARDS\<close> inserts of
  pairwise distinct, non-empty identifiers of at most \<open>MAX_UID_LEN\<close> bytes succeeds at
  every step; afterwards the \<open>k\<close>-th identifier is found by \<^verbatim>\<open>findIndex\<close> at index \<open>k\<close>, and
  the count read back equals the number of inserts that returned true.
\<close>

theorem inserts_all_succeed_and_found:
  assumes "readCount Bare e = 0" "int (length cs) \<le> MAX_CARDS Bare"
    and "\<forall>c \<in> set cs. snd c \<noteq> 0 \<and> uint (snd c) \<le> MAX_UID_LEN \<and> unat (snd c) \<le> length (fst c)"
    and "distinct (map ident cs)"
  shows "snd (addCards e cs) = replicate (length cs) True
     \<and> (\<forall>k < length cs. findIndex Bare (fst (addCards e cs)) (fst (cs ! k)) (snd (cs ! k)) = int k)
     \<and> unat (readCount Bare (fst (addCards e cs))) = length (filter id (snd (addCards e cs)))"
proof -
  define e' where "e' = fst (addCards e cs)"
  have su0: "stored_uids Bare e = []" using assms(1) by (simp add: stored_uids_def)
  have "snd (addCards e cs) = replicate (length cs) True
     \<and> stored_uids Bare (fst (addCards e cs)) = stored_uids Bare e @ map ident cs
     \<and> registry_inv Bare (fst (addCards e cs))"
    using assms(1,2) su0
    by (intro addCards_spec registry_inv_empty assms(3,4)) simp_all
  then have ok: "snd (addCards e cs) = replicate (length cs) True"
    and su: "stored_uids Bare e' = map ident cs" and inv: "registry_inv Bare e'"
    by (simp_all add: su0 e'_def)
  have cnt: "unat (readCount Bare e') = length cs"
    using su length_stored_uids[of Bare e'] by simp
  have "findIndex Bare e' (fst (cs ! k)) (snd (cs ! k)) = int k" if "k < length cs" for k
  proof (rule findIndex_at)
    show "unat (snd (cs ! k)) \<le> length (fst (cs ! k))" using assms(3) that by simp
    show "k < unat (readCount Bare e')" using that cnt by simp
    show "stored_uids Bare e' ! k = take (unat (snd (cs ! k))) (fst (cs ! k))"
      using that by (simp add: su ident_def)
    show "distinct (stored_uids Bare e')" using inv by (simp add: registry_inv_def)
  qed
  moreover have "length (filter id (replicate (length cs) True)) = length cs" by simp
  ultimately show ?thesis using ok cnt by (simp add: e'_def)
qed

theorem inserts_all_succeed_and_found_witness:
  "snd (addCards (\<lambda>_. 0) [([1, 2], 2), ([3], 1)]) = [True, True]
   \<and> findIndex Bare (fst (addCards (\<lambda>_. 0) [([1, 2], 2), ([3], 1)])) [3] 1 = 1
   \<and> unat (readCount Bare (fst (addCards (\<lambda>_. 0) [([1, 2], 2), ([3], 1)]))) = 2"
proof -
  define cs :: "(byte list \<times> byte) list" where "cs = [([1, 2], 2), ([3], 1)]"
  have h1: "readCount Bare (\<lambda>_. 0) = 0" by (simp add: readCount_def)
  have h2: "int (length cs) \<le> MAX_CARDS Bare" by (simp add: cs_def)
  have h3: "\<forall>c \<in> set cs. snd c \<noteq> 0 \<and> uint (snd c) \<le> MAX_UID_LEN \<and> unat (snd c) \<le> length (fst c)"
    by (simp add: cs_def MAX_UID_LEN_def)
  have h4: "distinct (map ident cs)" by (simp add: cs_def ident_def)
  note t = inserts_all_succeed_and_found[OF h1 h2 h3 h4]
  have l: "length cs = 2" and c1: "cs ! 1 = ([3], 1)" by (simp_all add: cs_def)
  from t have "\<forall>k < length cs.
      findIndex Bare (fst (addCards (\<lambda>_. 0) cs)) (fst (cs ! k)) (snd (cs ! k)) = int k"
    by blast
  then have "1 < length cs \<longrightarrow>
      findIndex Bare (fst (addCards (\<lambda>_. 0) cs)) (fst (cs ! 1)) (snd (cs ! 1)) = int 1"
    by (rule spec)
  then have "findIndex Bare (fst (addCards (\<lambda>_. 0) cs)) (fst (cs ! 1)) (snd (cs ! 1)) = int 1"
    unfolding l by simp
  then have f1: "findIndex Bare (fst (addCards (\<lambda>_. 0) cs)) [3] 1 = 1"
    unfolding c1 by simp
  from t have f2: "snd (addCards (\<lambda>_. 0) cs) = [True, True]"
    unfolding l by (simp add: numeral_2_eq_2)
  from t have "unat (readCount Bare (fst (addCards (\<lambda>_. 0) cs)))
      = length (filter id (snd (addCards (\<lambda>_. 0) cs)))"
    by blast
  then have f3: "unat (readCount Bare (fst (addCards (\<lambda>_. 0) cs))) = 2"
    unfolding f2 by simp
  show ?thesis using f1 f2 f3 unfolding cs_def by blast
qed

text \<open>
  C2. In both sketches an insert returns false exactly when the identifier is empty, the
  count has reached the capacity, or a live slot already holds the same identifier
  (same length, same bytes), whatever the name; and an insert that returns false
  leaves the whole EEPROM, hence the count and every entry, as it was.
\<close>

theorem insert_fails_iff_and_unchanged:
  assumes "unat len \<le> length uid"
  shows "(\<not> snd (addCard e uid len) \<longleftrightarrow>
            len = 0 \<or> uint (readCount Bare e) = MAX_CARDS Bare
            \<or> take (unat len) uid \<in> set (stored_uids Bare e))
     \<and> (\<not> snd (addCard e uid len) \<longrightarrow> fst (addCard e uid len) = e)
     \<and> (\<not> snd (addCardWithName e uid len name) \<longleftrightarrow>
            len = 0 \<or> uint (readCount Named e) = MAX_CARDS Named
            \<or> take (unat len) uid \<in> set (stored_uids Named e))
     \<and> (\<not> snd (addCardWithName e uid len name) \<longrightarrow> fst (addCardWithName e uid len name) = e)"
  using addCard_fails_iff[of e uid len] addCard_failed_unchanged[of e uid len]
    addCardWithName_fails_iff[of e uid len name] addCardWithName_failed_unchanged[of e uid len name]
    findIndex_nonneg_iff_stored[OF assms, of Bare e] findIndex_nonneg_iff_stored[OF assms, of Named e]
  by simp

theorem insert_fails_iff_and_unchanged_witness:
  "\<not> snd (addCard (fst (addCard (\<lambda>_. 0) [7, 9] 2)) [7, 9] 2)
   \<and> \<not> snd (addCardWithName (fst (addCardWithName (\<lambda>_. 0) [7, 9] 2 ''Al'')) [7, 9] 2 ''Bo'')"
proof -
  define e1 where "e1 = fst (addCard (\<lambda>_. 0) [7, 9] 2)"
  define e2 where "e2 = fst (addCardWithName (\<lambda>_. 0) [7, 9] 2 ''Al'')"
  have h: "unat (2 :: byte) \<le> length [7, 9 :: byte]" by simp
  have m1: "take (unat (2 :: byte)) [7, 9] \<in> set (stored_uids Bare e1)"
    unfolding e1_def by code_simp
  have m2: "take (unat (2 :: byte)) [7, 9] \<in> set (stored_uids Named e2)"
    unfolding e2_def by code_simp
  have "\<not> snd (addCard e1 [7, 9] 2)"
    using insert_fails_iff_and_unchanged[OF h, where e = e1 and name = "''Bo''"] m1 by blast
  moreover have "\<not> snd (addCardWithName e2 [7, 9] 2 ''Bo'')"
    using insert_fails_iff_and_unchanged[OF h, where e = e2 and name = "''Bo''"] m2 by blast
  ultimately show ?thesis unfolding e1_def e2_def by blast
qed

section \<open>Delete\<close>

lemma uint_pred_byte: "0 < uint (x :: byte) \<Longrightarrow> uint (x - 1) = uint x - 1"
  by (metis int_one_le_iff_zero_less uint_minus_simple_alt unsigned_0
    unsigned_1 verit_la_disequality word_le_sub1 word_zero_le zero_le_one
    zero_neq_one)

lemma findIndex_bounds:
  "0 \<le> findIndex v e uid len \<Longrightarrow> findIndex v e uid len < uint (readCount v e)"
  using findIndex_spec[of v e uid len] by auto

lemma removeCard_not_found: "findIndex v e uid len < 0 \<Longrightarrow> removeCard v e uid len = (e, False)"
  by (simp add: removeCard_def)

lemma removeCard_effect:
  assumes "0 \<le> findIndex v e uid len"
  shows "snd (removeCard v e uid len)"
    and "fst (removeCard v e uid len) a =
     (let idx = findIndex v e uid len; c = uint (readCount v e) in
      if a = EEPROM_ADDR_COUNT then readCount v e - 1
      else if entryAddress v (c - 1) \<le> a \<and> a < entryAddress v c then 0
      else if entryAddress v idx \<le> a \<and> a < entryAddress v (c - 1) then e (a + ENTRY_SIZE v)
      else e a)"
proof -
  define idx where "idx = findIndex v e uid len"
  define count where "count = readCount v e"
  have idx: "0 \<le> idx" "idx < uint count"
    using assms findIndex_bounds[OF assms] by (simp_all add: idx_def count_def)
  have u: "uint (count - 1) = uint count - 1" using idx by (intro uint_pred_byte) simp
  have le: "uint (count - 1) \<le> MAX_CARDS v"
    using u readCount_le[of v e] by (simp add: count_def)
  have r: "removeCard v e uid len =
      (writeCount v (count - 1)
         (zero_entry v (shift_entries v e (uint count) idx) (entryAddress v (uint count - 1)) 0), True)"
    using idx by (simp add: removeCard_def Let_def idx_def count_def)
  show "snd (removeCard v e uid len)" by (simp add: r)
  have c0: "EEPROM_ADDR_COUNT < entryAddress v (uint count - 1)"
    using idx by (intro entryAddress_neq_count) simp
  have ea: "entryAddress v (uint count - 1) + ENTRY_SIZE v = entryAddress v (uint count)"
    using entryAddress_Suc[of v "uint count - 1"] by simp
  show "fst (removeCard v e uid len) a =
     (let idx = findIndex v e uid len; c = uint (readCount v e) in
      if a = EEPROM_ADDR_COUNT then readCount v e - 1
      else if entryAddress v (c - 1) \<le> a \<and> a < entryAddress v c then 0
      else if entryAddress v idx \<le> a \<and> a < entryAddress v (c - 1) then e (a + ENTRY_SIZE v)
      else e a)"
    unfolding r Let_def idx_def[symmetric] count_def[symmetric]
    using c0 by (simp add: writeCount_effect[OF le] zero_entry_effect shift_entries_effect ea)
qed

lemma slot_eqI:
  assumes "\<And>b. 0 \<le> b \<Longrightarrow> b < ENTRY_SIZE v \<Longrightarrow> e' (entryAddress v k + b) = e (entryAddress v j + b)"
  shows "slot v e' k = slot v e j"
  unfolding slot_def by (intro map_cong refl assms) auto

lemma stored_uid_eqI:
  assumes "\<And>b. 0 \<le> b \<Longrightarrow> b < 1 + MAX_UID_LEN \<Longrightarrow> e' (entryAddress v k + b) = e (entryAddress v j + b)"
    and "uint (e (entryAddress v j)) \<le> MAX_UID_LEN"
  shows "stored_uid v e' k = stored_uid v e j"
proof -
  have l: "e' (entryAddress v k) = e (entryAddress v j)"
    using assms(1)[of 0] by (simp add: MAX_UID_LEN_def)
  have "e' (entryAddress v k + 1 + int i) = e (entryAddress v j + 1 + int i)"
    if "i < unat (e (entryAddress v j))" for i
  proof -
    have "int i < uint (e (entryAddress v j))" using that by (simp add: int_less_uint_iff)
    with assms(2) have "1 + int i < 1 + MAX_UID_LEN" by simp
    from assms(1)[OF _ this] show ?thesis by (simp add: add.assoc)
  qed
  then show ?thesis unfolding stored_uid_def l by simp
qed

lemma removeCard_pointwise:
  assumes "0 \<le> findIndex v e uid len" "0 \<le> b" "b < ENTRY_SIZE v"
  defines "e' \<equiv> fst (removeCard v e uid len)"
    and "idx \<equiv> findIndex v e uid len" and "c \<equiv> uint (readCount v e)"
  shows "0 \<le> k \<Longrightarrow> k < idx \<Longrightarrow> e' (entryAddress v k + b) = e (entryAddress v k + b)"
    and "idx \<le> k \<Longrightarrow> k < c - 1 \<Longrightarrow> e' (entryAddress v k + b) = e (entryAddress v (k + 1) + b)"
    and "e' (entryAddress v (c - 1) + b) = 0"
proof -
  have idx: "0 \<le> idx" "idx < c"
    using assms(1) findIndex_bounds[OF assms(1)] by (simp_all add: idx_def c_def)
  have eff: "e' a =
     (if a = EEPROM_ADDR_COUNT then readCount v e - 1
      else if entryAddress v (c - 1) \<le> a \<and> a < entryAddress v c then 0
      else if entryAddress v idx \<le> a \<and> a < entryAddress v (c - 1) then e (a + ENTRY_SIZE v)
      else e a)" for a
    unfolding e'_def idx_def c_def removeCard_effect(2)[OF assms(1)] Let_def ..
  have ea: "entryAddress v (c - 1) + ENTRY_SIZE v = entryAddress v c"
    using entryAddress_Suc[of v "c - 1"] by simp
  show "e' (entryAddress v k + b) = e (entryAddress v k + b)" if "0 \<le> k" "k < idx"
  proof -
    have "entryAddress v k + ENTRY_SIZE v \<le> entryAddress v idx" using that by (intro entryAddress_mono)
    moreover have "entryAddress v idx \<le> entryAddress v (c - 1)"
      using idx by (intro entryAddress_mono_le) simp
    moreover have "EEPROM_ADDR_COUNT < entryAddress v k" using that by (intro entryAddress_neq_count)
    ultimately show ?thesis using assms(2,3) by (simp add: eff)
  qed
  show "e' (entryAddress v k + b) = e (entryAddress v (k + 1) + b)" if "idx \<le> k" "k < c - 1"
  proof -
    have "entryAddress v k + ENTRY_SIZE v \<le> entryAddress v (c - 1)" using that by (intro entryAddress_mono)
    moreover have "entryAddress v idx \<le> entryAddress v k"
      using that by (intro entryAddress_mono_le)
    moreover have "EEPROM_ADDR_COUNT < entryAddress v k"
      using that idx by (intro entryAddress_neq_count) simp
    ultimately have "e' (entryAddress v k + b) = e (entryAddress v k + b + ENTRY_SIZE v)"
      using assms(2,3) by (simp add: eff)
    also have "entryAddress v k + b + ENTRY_SIZE v = entryAddress v (k + 1) + b"
      unfolding entryAddress_Suc by simp
    finally show ?thesis .
  qed
  show "e' (entryAddress v (c - 1) + b) = 0"
  proof -
    have "EEPROM_ADDR_COUNT < entryAddress v (c - 1)"
      using idx by (intro entryAddress_neq_count) simp
    then show ?thesis using assms(2,3) ea by (simp add: eff)
  qed
qed

lemma removeCard_count:
  assumes "0 \<le> findIndex v e uid len"
  shows "readCount v (fst (removeCard v e uid len)) = readCount v e - 1"
    and "uint (readCount v (fst (removeCard v e uid len))) = uint (readCount v e) - 1"
    and "Suc (unat (readCount v (fst (removeCard v e uid len)))) = unat (readCount v e)"
proof -
  have pos: "0 < uint (readCount v e)" using assms findIndex_bounds[OF assms] by simp
  have u: "uint (readCount v e - 1) = uint (readCount v e) - 1" using pos by (rule uint_pred_byte)
  have "fst (removeCard v e uid len) EEPROM_ADDR_COUNT = readCount v e - 1"
    by (simp add: removeCard_effect(2)[OF assms] Let_def)
  then show 1: "readCount v (fst (removeCard v e uid len)) = readCount v e - 1"
    using u readCount_le[of v e] by (simp add: readCount_def[of v "fst (removeCard v e uid len)"])
  show 2: "uint (readCount v (fst (removeCard v e uid len))) = uint (readCount v e) - 1"
    using 1 u by simp
  have "int (Suc (unat (readCount v (fst (removeCard v e uid len))))) = int (unat (readCount v e))"
    using 2 by simp
  then show "Suc (unat (readCount v (fst (removeCard v e uid len)))) = unat (readCount v e)"
    by (rule of_nat_eq_iff[THEN iffD1])
qed

lemma remove_nth_eq:
  assumes "Suc (length ys) = length xs" "i < length xs"
    and "\<And>k. k < i \<Longrightarrow> ys ! k = xs ! k"
    and "\<And>k. i \<le> k \<Longrightarrow> k < length ys \<Longrightarrow> ys ! k = xs ! Suc k"
  shows "ys = take i xs @ drop (Suc i) xs"
proof (rule nth_equalityI)
  show "length ys = length (take i xs @ drop (Suc i) xs)" using assms(1,2) by auto
next
  fix k assume k: "k < length ys"
  show "ys ! k = (take i xs @ drop (Suc i) xs) ! k"
  proof (cases "k < i")
    case True
    then show ?thesis using assms(2,3) by (simp add: nth_append)
  next
    case False
    then have "(take i xs @ drop (Suc i) xs) ! k = xs ! Suc k"
      using assms(1,2) k by (simp add: nth_append min_def)
    with False assms(4) k show ?thesis by simp
  qed
qed

lemma distinct_remove_nth:
  assumes "distinct xs" "i < length xs"
  shows "distinct (take i xs @ drop (Suc i) xs)" and "xs ! i \<notin> set (take i xs @ drop (Suc i) xs)"
proof -
  have "xs = take i xs @ xs ! i # drop (Suc i) xs" using assms(2) by (rule id_take_nth_drop)
  then have "distinct (take i xs @ xs ! i # drop (Suc i) xs)" using assms(1) by simp
  then show "distinct (take i xs @ drop (Suc i) xs)"
    and "xs ! i \<notin> set (take i xs @ drop (Suc i) xs)" by auto
qed

lemma length_slots: "length (slots v e) = unat (readCount v e)"
  by (simp add: slots_def)

lemma removeCard_slots:
  assumes "0 \<le> findIndex v e uid len"
  shows "slots v (fst (removeCard v e uid len)) =
     take (nat (findIndex v e uid len)) (slots v e) @ drop (Suc (nat (findIndex v e uid len))) (slots v e)"
proof (rule remove_nth_eq)
  define e' where "e' = fst (removeCard v e uid len)"
  define idx where "idx = findIndex v e uid len"
  have idx: "0 \<le> idx" "idx < uint (readCount v e)"
    using assms findIndex_bounds[OF assms] by (simp_all add: idx_def)
  note cnt = removeCard_count[OF assms, folded e'_def]
  show "Suc (length (slots v (fst (removeCard v e uid len)))) = length (slots v e)"
    using cnt(3) by (simp add: length_slots e'_def)
  show "nat (findIndex v e uid len) < length (slots v e)"
    using idx by (simp add: length_slots nat_less_unat_iff idx_def)
  show "slots v (fst (removeCard v e uid len)) ! k = slots v e ! k"
    if "k < nat (findIndex v e uid len)" for k
  proof -
    have k: "0 \<le> int k" "int k < idx" using that by (simp_all add: idx_def)
    then have "int k < uint (readCount v e) - 1" using idx by simp
    then have "int k < uint (readCount v e')" "int k < uint (readCount v e)"
      using cnt(2) by simp_all
    then have l: "k < unat (readCount v e')" "k < unat (readCount v e)"
      by (simp_all add: int_less_uint_iff)
    have "slot v e' (int k) = slot v e (int k)"
      using removeCard_pointwise(1)[OF assms _ _ k(1)] k(2) by (intro slot_eqI) (simp add: e'_def idx_def)
    then show ?thesis using l by (simp add: slots_def e'_def)
  qed
  show "slots v (fst (removeCard v e uid len)) ! k = slots v e ! Suc k"
    if "nat (findIndex v e uid len) \<le> k" "k < length (slots v (fst (removeCard v e uid len)))" for k
  proof -
    have l: "k < unat (readCount v e')" using that(2) by (simp add: length_slots e'_def)
    then have l2: "Suc k < unat (readCount v e)" using cnt(3) by simp
    have k: "idx \<le> int k" using that(1) idx by (simp add: idx_def)
    have "int k < uint (readCount v e')" using l by (simp add: int_less_uint_iff)
    then have k2: "int k < uint (readCount v e) - 1" using cnt(2) by simp
    have "slot v e' (int k) = slot v e (int k + 1)"
      using removeCard_pointwise(2)[OF assms _ _ _ k2] k by (intro slot_eqI) (simp add: e'_def idx_def)
    then show ?thesis using l l2 by (simp add: slots_def e'_def add.commute)
  qed
qed

lemma removeCard_stored_uids:
  assumes "0 \<le> findIndex v e uid len"
    and "\<forall>k \<in> {0..<unat (readCount v e)}. uint (e (entryAddress v (int k))) \<le> MAX_UID_LEN"
  shows "stored_uids v (fst (removeCard v e uid len)) =
     take (nat (findIndex v e uid len)) (stored_uids v e)
       @ drop (Suc (nat (findIndex v e uid len))) (stored_uids v e)"
proof (rule remove_nth_eq)
  define e' where "e' = fst (removeCard v e uid len)"
  define idx where "idx = findIndex v e uid len"
  have idx: "0 \<le> idx" "idx < uint (readCount v e)"
    using assms findIndex_bounds[OF assms(1)] by (simp_all add: idx_def)
  note cnt = removeCard_count[OF assms(1), folded e'_def]
  have es: "b < 1 + MAX_UID_LEN \<Longrightarrow> b < ENTRY_SIZE v" for b
    using ENTRY_SIZE_ge[of v] by simp
  show "Suc (length (stored_uids v (fst (removeCard v e uid len)))) = length (stored_uids v e)"
    using cnt(3) by (simp add: length_stored_uids e'_def)
  show "nat (findIndex v e uid len) < length (stored_uids v e)"
    using idx by (simp add: length_stored_uids nat_less_unat_iff idx_def)
  show "stored_uids v (fst (removeCard v e uid len)) ! k = stored_uids v e ! k"
    if "k < nat (findIndex v e uid len)" for k
  proof -
    have k: "0 \<le> int k" "int k < idx" using that by (simp_all add: idx_def)
    then have "int k < uint (readCount v e) - 1" using idx by simp
    then have "int k < uint (readCount v e')" "int k < uint (readCount v e)"
      using cnt(2) by simp_all
    then have l: "k < unat (readCount v e')" "k < unat (readCount v e)"
      by (simp_all add: int_less_uint_iff)
    have "stored_uid v e' (int k) = stored_uid v e (int k)"
      using removeCard_pointwise(1)[OF assms(1) _ _ k(1)] k(2) assms(2) l(2) es
      by (intro stored_uid_eqI) (simp_all add: e'_def idx_def)
    then show ?thesis using l by (simp add: stored_uids_def e'_def)
  qed
  show "stored_uids v (fst (removeCard v e uid len)) ! k = stored_uids v e ! Suc k"
    if "nat (findIndex v e uid len) \<le> k"
      "k < length (stored_uids v (fst (removeCard v e uid len)))" for k
  proof -
    have l: "k < unat (readCount v e')" using that(2) by (simp add: length_stored_uids e'_def)
    then have l2: "Suc k < unat (readCount v e)" using cnt(3) by simp
    have k: "idx \<le> int k" using that(1) idx by (simp add: idx_def)
    have "int k < uint (readCount v e')" using l by (simp add: int_less_uint_iff)
    then have k2: "int k < uint (readCount v e) - 1" using cnt(2) by simp
    have "Suc k \<in> {0..<unat (readCount v e)}" using l2 by simp
    with assms(2) have "uint (e (entryAddress v (int (Suc k)))) \<le> MAX_UID_LEN" by blast
    moreover have "int (Suc k) = int k + 1" by simp
    ultimately have "uint (e (entryAddress v (int k + 1))) \<le> MAX_UID_LEN" by metis
    then have "stored_uid v e' (int k) = stored_uid v e (int k + 1)"
      using removeCard_pointwise(2)[OF assms(1) _ _ _ k2] k es
      by (intro stored_uid_eqI) (simp_all add: e'_def idx_def add.commute)
    then show ?thesis using l l2 by (simp add: stored_uids_def e'_def add.commute)
  qed
qed

lemma removeCard_inv:
  assumes "registry_inv v e"
  shows "registry_inv v (fst (removeCard v e uid len))"
proof (cases "0 \<le> findIndex v e uid len")
  case False
  then show ?thesis using assms by (simp add: removeCard_not_found)
next
  case True
  define e' where "e' = fst (removeCard v e uid len)"
  define idx where "idx = findIndex v e uid len"
  have idx: "0 \<le> idx" "idx < uint (readCount v e)"
    using True findIndex_bounds[OF True] by (simp_all add: idx_def)
  have old: "\<forall>k \<in> {0..<unat (readCount v e)}. 1 \<le> uint (e (entryAddress v (int k)))
            \<and> uint (e (entryAddress v (int k))) \<le> MAX_UID_LEN"
    and d: "distinct (stored_uids v e)"
    using assms by (simp_all add: registry_inv_def)
  note cnt = removeCard_count[OF True, folded e'_def]
  have su: "stored_uids v e' = take (nat idx) (stored_uids v e) @ drop (Suc (nat idx)) (stored_uids v e)"
    unfolding e'_def idx_def using old by (intro removeCard_stored_uids True) simp
  have "nat idx < length (stored_uids v e)"
    using idx by (simp add: length_stored_uids nat_less_unat_iff)
  then have d': "distinct (stored_uids v e')" unfolding su using d by (intro distinct_remove_nth(1))
  have "1 \<le> uint (e' (entryAddress v (int k))) \<and> uint (e' (entryAddress v (int k))) \<le> MAX_UID_LEN"
    if "k < unat (readCount v e')" for k
  proof -
    have k1: "Suc k < unat (readCount v e)" using that cnt(3) by simp
    have "int k < uint (readCount v e')" using that by (simp add: int_less_uint_iff)
    then have k2: "int k < uint (readCount v e) - 1" using cnt(2) by simp
    show ?thesis
    proof (cases "int k < idx")
      case True
      have "e' (entryAddress v (int k) + 0) = e (entryAddress v (int k) + 0)"
        unfolding e'_def using True ENTRY_SIZE_pos[of v]
        by (intro removeCard_pointwise(1) \<open>0 \<le> findIndex v e uid len\<close>) (simp_all add: idx_def)
      moreover have "k \<in> {0..<unat (readCount v e)}" using k1 by simp
      ultimately show ?thesis using old by simp
    next
      case False
      have "e' (entryAddress v (int k) + 0) = e (entryAddress v (int k + 1) + 0)"
        unfolding e'_def using False k2 ENTRY_SIZE_pos[of v]
        by (intro removeCard_pointwise(2) \<open>0 \<le> findIndex v e uid len\<close>) (simp_all add: idx_def)
      moreover have "Suc k \<in> {0..<unat (readCount v e)}" using k1 by simp
      then have "1 \<le> uint (e (entryAddress v (int (Suc k))))
            \<and> uint (e (entryAddress v (int (Suc k)))) \<le> MAX_UID_LEN" using old by blast
      moreover have "int (Suc k) = int k + 1" by simp
      ultimately show ?thesis by (metis add.right_neutral)
    qed
  qed
  then show ?thesis
    using d' readCount_le[of v e'] by (simp add: registry_inv_def e'_def)
qed

lemma removeCard_then_not_found:
  assumes "registry_inv v e" "unat len \<le> length uid" "0 \<le> findIndex v e uid len"
  shows "findIndex v (fst (removeCard v e uid len)) uid len < 0"
proof -
  define idx where "idx = findIndex v e uid len"
  have idx: "0 \<le> idx" "idx < uint (readCount v e)"
    using assms(3) findIndex_bounds[OF assms(3)] by (simp_all add: idx_def)
  have old: "\<forall>k \<in> {0..<unat (readCount v e)}. uint (e (entryAddress v (int k))) \<le> MAX_UID_LEN"
    and d: "distinct (stored_uids v e)"
    using assms(1) by (simp_all add: registry_inv_def)
  have n: "nat idx < unat (readCount v e)" using idx by (simp add: nat_less_unat_iff)
  have "entry_matches v e uid len idx"
    using findIndex_spec[of v e uid len] assms(3) by (auto simp: idx_def)
  then have "stored_uid v e idx = take (unat len) uid" by (simp add: entry_matches_iff[OF assms(2)])
  then have at: "stored_uids v e ! nat idx = take (unat len) uid"
    using n idx by (simp add: stored_uids_def)
  have "stored_uids v e ! nat idx
      \<notin> set (take (nat idx) (stored_uids v e) @ drop (Suc (nat idx)) (stored_uids v e))"
    using d n by (intro distinct_remove_nth(2)) (simp_all add: length_stored_uids)
  then have "take (unat len) uid
      \<notin> set (take (nat idx) (stored_uids v e) @ drop (Suc (nat idx)) (stored_uids v e))"
    unfolding at .
  then have "take (unat len) uid \<notin> set (stored_uids v (fst (removeCard v e uid len)))"
    unfolding removeCard_stored_uids[OF assms(3) old] idx_def .
  then show ?thesis
    using findIndex_nonneg_iff_stored[OF assms(2), of v "fst (removeCard v e uid len)"] by simp
qed

lemma clear_count: "readCount v (clearAuthorizedList v e) = 0"
proof -
  have "uint (0 :: byte) \<le> MAX_CARDS v" by (cases v) simp_all
  then show ?thesis
    by (simp add: clearAuthorizedList_def Let_def readCount_def writeCount_effect)
qed

lemma addCard_inv:
  assumes "registry_inv Bare e" "uint len \<le> MAX_UID_LEN" "unat len \<le> length uid"
  shows "registry_inv Bare (fst (addCard e uid len))"
proof (cases "snd (addCard e uid len)")
  case False
  then show ?thesis using assms(1) by (simp add: addCard_failed_unchanged)
next
  case True
  then have "len \<noteq> 0" "take (unat len) uid \<notin> set (stored_uids Bare e)"
    using addCard_fails_iff[of e uid len] findIndex_nonneg_iff_stored[OF assms(3), of Bare e]
    by auto
  then show ?thesis
    by (intro appended_inv[OF addCard_appended[OF True] assms(1) _ assms(2,3)])
qed

lemma addCardWithName_inv:
  assumes "registry_inv Named e" "uint len \<le> MAX_UID_LEN" "unat len \<le> length uid"
  shows "registry_inv Named (fst (addCardWithName e uid len name))"
proof (cases "snd (addCardWithName e uid len name)")
  case False
  then show ?thesis using assms(1) by (simp add: addCardWithName_failed_unchanged)
next
  case True
  then have "len \<noteq> 0" "take (unat len) uid \<notin> set (stored_uids Named e)"
    using addCardWithName_fails_iff[of e uid len name]
      findIndex_nonneg_iff_stored[OF assms(3), of Named e]
    by auto
  then show ?thesis
    by (intro appended_inv[OF addCardWithName_appended[OF True] assms(1) _ assms(2,3)])
qed

text \<open>
  C4. In both sketches: a delete whose lookup fails returns false and leaves the EEPROM
  as it was. A delete whose lookup succeeds at index \<open>idx\<close> returns true; the slots
  before \<open>idx\<close> keep their records, every slot from \<open>idx\<close> to \<open>count - 2\<close> receives the
  record of its successor, so the live records are the old ones without the
  \<open>idx\<close>-th, in the same order; the last previously live slot is all zero; the count
  read back is one less; and, in a registry that satisfies the invariant, the
  identifier is no longer found.
\<close>

theorem delete_spec:
  "(findIndex v e uid len < 0 \<longrightarrow> removeCard v e uid len = (e, False))
   \<and> (0 \<le> findIndex v e uid len \<longrightarrow>
        snd (removeCard v e uid len)
        \<and> (\<forall>i \<in> {0..<findIndex v e uid len}.
              slot v (fst (removeCard v e uid len)) i = slot v e i)
        \<and> (\<forall>i \<in> {findIndex v e uid len..<uint (readCount v e) - 1}.
              slot v (fst (removeCard v e uid len)) i = slot v e (i + 1))
        \<and> slots v (fst (removeCard v e uid len)) =
              take (nat (findIndex v e uid len)) (slots v e)
                @ drop (Suc (nat (findIndex v e uid len))) (slots v e)
        \<and> slot v (fst (removeCard v e uid len)) (uint (readCount v e) - 1)
              = replicate (nat (ENTRY_SIZE v)) 0
        \<and> uint (readCount v (fst (removeCard v e uid len))) = uint (readCount v e) - 1
        \<and> (registry_inv v e \<and> unat len \<le> length uid \<longrightarrow>
              findIndex v (fst (removeCard v e uid len)) uid len < 0))"
proof (intro conjI impI ballI)
  show "removeCard v e uid len = (e, False)" if "findIndex v e uid len < 0"
    using that by (rule removeCard_not_found)
next
  assume f: "0 \<le> findIndex v e uid len"
  show "snd (removeCard v e uid len)" by (rule removeCard_effect(1)[OF f])
  show "slot v (fst (removeCard v e uid len)) i = slot v e i"
    if "i \<in> {0..<findIndex v e uid len}" for i
    using that by (intro slot_eqI removeCard_pointwise(1)[OF f]) simp_all
  show "slot v (fst (removeCard v e uid len)) i = slot v e (i + 1)"
    if "i \<in> {findIndex v e uid len..<uint (readCount v e) - 1}" for i
    using that by (intro slot_eqI removeCard_pointwise(2)[OF f]) simp_all
  show "slots v (fst (removeCard v e uid len)) =
      take (nat (findIndex v e uid len)) (slots v e)
        @ drop (Suc (nat (findIndex v e uid len))) (slots v e)"
    by (rule removeCard_slots[OF f])
  show "slot v (fst (removeCard v e uid len)) (uint (readCount v e) - 1)
      = replicate (nat (ENTRY_SIZE v)) 0"
    unfolding slot_def
    by (rule nth_equalityI) (simp_all add: removeCard_pointwise(3)[OF f])
  show "uint (readCount v (fst (removeCard v e uid len))) = uint (readCount v e) - 1"
    by (rule removeCard_count(2)[OF f])
  show "findIndex v (fst (removeCard v e uid len)) uid len < 0"
    if "registry_inv v e \<and> unat len \<le> length uid"
    using that f by (intro removeCard_then_not_found) simp_all
qed

theorem delete_spec_witness:
  "snd (removeCard Bare (fst (addCards (\<lambda>_. 0) [([7, 9], 2), ([3], 1)])) [7, 9] 2)
   \<and> uint (readCount Bare
        (fst (removeCard Bare (fst (addCards (\<lambda>_. 0) [([7, 9], 2), ([3], 1)])) [7, 9] 2))) = 1
   \<and> findIndex Bare
        (fst (removeCard Bare (fst (addCards (\<lambda>_. 0) [([7, 9], 2), ([3], 1)])) [7, 9] 2))
        [7, 9] 2 < 0"
proof -
  define e2 where "e2 = fst (addCards (\<lambda>_. 0) [([7, 9], 2), ([3], 1)])"
  have f: "0 \<le> findIndex Bare e2 [7, 9] 2" unfolding e2_def by code_simp
  have i: "registry_inv Bare e2" unfolding e2_def by code_simp
  have c: "uint (readCount Bare e2) = 2" unfolding e2_def by code_simp
  have h: "unat (2 :: byte) \<le> length [7, 9 :: byte]" by simp
  show ?thesis
    unfolding e2_def[symmetric]
    using delete_spec[of Bare e2 "[7, 9]" 2] f i c h by simp
qed

text \<open>The persisted count byte stays within the capacity.\<close>

lemma appended_count_byte:
  assumes "appended v e e' uid len"
  shows "uint (e' EEPROM_ADDR_COUNT) \<le> MAX_CARDS v"
proof -
  have "uint (readCount v e) < MAX_CARDS v" and "e' EEPROM_ADDR_COUNT = readCount v e + 1"
    using assms by (simp_all add: appended_def)
  moreover from this have "uint (readCount v e + 1) = uint (readCount v e) + 1"
    using MAX_CARDS_le[of v] by (intro uint_succ_byte) simp
  ultimately show ?thesis by simp
qed

lemma addCard_count_byte:
  "uint (e EEPROM_ADDR_COUNT) \<le> MAX_CARDS Bare \<Longrightarrow>
     uint (fst (addCard e uid len) EEPROM_ADDR_COUNT) \<le> MAX_CARDS Bare"
  using appended_count_byte[OF addCard_appended, of e uid len] addCard_failed_unchanged[of e uid len]
  by (cases "snd (addCard e uid len)") simp_all

lemma addCardWithName_count_byte:
  "uint (e EEPROM_ADDR_COUNT) \<le> MAX_CARDS Named \<Longrightarrow>
     uint (fst (addCardWithName e uid len name) EEPROM_ADDR_COUNT) \<le> MAX_CARDS Named"
  using appended_count_byte[OF addCardWithName_appended, of e uid len name]
    addCardWithName_failed_unchanged[of e uid len name]
  by (cases "snd (addCardWithName e uid len name)") simp_all

lemma removeCard_count_byte:
  "uint (e EEPROM_ADDR_COUNT) \<le> MAX_CARDS v \<Longrightarrow>
     uint (fst (removeCard v e uid len) EEPROM_ADDR_COUNT) \<le> MAX_CARDS v"
proof (cases "0 \<le> findIndex v e uid len")
  case False
  assume "uint (e EEPROM_ADDR_COUNT) \<le> MAX_CARDS v"
  with False show ?thesis by (simp add: removeCard_not_found)
next
  case True
  have pos: "0 < uint (readCount v e)" using True findIndex_bounds[OF True] by simp
  have "fst (removeCard v e uid len) EEPROM_ADDR_COUNT = readCount v e - 1"
    by (simp add: removeCard_effect(2)[OF True] Let_def)
  then show ?thesis
    using uint_pred_byte[OF pos] readCount_le[of v e] by simp
qed

lemma clear_count_byte: "clearAuthorizedList v e EEPROM_ADDR_COUNT = 0"
proof -
  have "uint (0 :: byte) \<le> MAX_CARDS v" by (cases v) simp_all
  then show ?thesis by (simp add: clearAuthorizedList_def Let_def writeCount_effect)
qed

text \<open>
  C5. Insert (of an identifier within the data model's \<open>MAX_UID_LEN\<close> bytes), delete and
  clear preserve the registry invariant: the live slots \<open>[0, count)\<close> all hold non-empty
  identifiers, and no two of them hold the same identifier. The count never exceeds
  the capacity: the count read back is within \<open>MAX_CARDS\<close> (part of the invariant), and
  the persisted count byte, once within \<open>MAX_CARDS\<close>, stays so under insert and delete,
  and is 0 after clear.
\<close>

theorem operations_preserve_registry_inv:
  "(registry_inv v e \<longrightarrow>
      (uint len \<le> MAX_UID_LEN \<and> unat len \<le> length uid \<longrightarrow>
         (v = Bare \<longrightarrow> registry_inv v (fst (addCard e uid len)))
         \<and> (v = Named \<longrightarrow> registry_inv v (fst (addCardWithName e uid len name))))
      \<and> registry_inv v (fst (removeCard v e uid' len'))
      \<and> registry_inv v (clearAuthorizedList v e))
   \<and> (uint (e EEPROM_ADDR_COUNT) \<le> MAX_CARDS v \<longrightarrow>
        (v = Bare \<longrightarrow> uint (fst (addCard e uid len) EEPROM_ADDR_COUNT) \<le> MAX_CARDS v)
        \<and> (v = Named \<longrightarrow>
              uint (fst (addCardWithName e uid len name) EEPROM_ADDR_COUNT) \<le> MAX_CARDS v)
        \<and> uint (fst (removeCard v e uid' len') EEPROM_ADDR_COUNT) \<le> MAX_CARDS v)
   \<and> clearAuthorizedList v e EEPROM_ADDR_COUNT = 0
   \<and> uint (clearAuthorizedList v e EEPROM_ADDR_COUNT) \<le> MAX_CARDS v"
proof -
  have z: "uint (0 :: byte) \<le> MAX_CARDS v" by (cases v) simp_all
  show ?thesis
    using addCard_inv[of e len uid] addCardWithName_inv[of e len uid name]
      removeCard_inv[of v e uid' len'] registry_inv_empty[OF clear_count, of v e]
      addCard_count_byte[of e uid len] addCardWithName_count_byte[of e uid len name]
      removeCard_count_byte[of e v uid' len'] clear_count_byte[of v e] z
    by auto
qed

theorem operations_preserve_registry_inv_witness:
  "registry_inv Bare (fst (addCard (fst (addCards (\<lambda>_. 0) [([7, 9], 2), ([3], 1)])) [5] 1))
   \<and> registry_inv Bare (fst (removeCard Bare (fst (addCards (\<lambda>_. 0) [([7, 9], 2), ([3], 1)])) [3] 1))
   \<and> registry_inv Bare (clearAuthorizedList Bare (fst (addCards (\<lambda>_. 0) [([7, 9], 2), ([3], 1)])))
   \<and> uint (fst (addCard (fst (addCards (\<lambda>_. 0) [([7, 9], 2), ([3], 1)])) [5] 1) EEPROM_ADDR_COUNT) \<le> 40
   \<and> uint (fst (removeCard Bare (fst (addCards (\<lambda>_. 0) [([7, 9], 2), ([3], 1)])) [3] 1)
        EEPROM_ADDR_COUNT) \<le> 40"
proof -
  define e2 where "e2 = fst (addCards (\<lambda>_. 0) [([7, 9], 2), ([3], 1)])"
  have i: "registry_inv Bare e2" unfolding e2_def by code_simp
  have c: "uint (e2 EEPROM_ADDR_COUNT) \<le> MAX_CARDS Bare" unfolding e2_def by code_simp
  have h: "uint (1 :: byte) \<le> MAX_UID_LEN \<and> unat (1 :: byte) \<le> length [5 :: byte]"
    by (simp add: MAX_UID_LEN_def)
  show ?thesis
    unfolding e2_def[symmetric]
    using operations_preserve_registry_inv[of Bare e2 1 "[5]" _ "[3]" 1] i c h by simp
qed

section \<open>The dwell loop\<close>

lemma service_serial_idle:
  "service_serial v (w\<lparr>serial := None # ins\<rparr>) = Some (w\<lparr>serial := ins\<rparr>)"
  by (simp add: service_serial_def)

text \<open>
  C3. The \<^verbatim>\<open>break\<close> of the dwell loop is guarded by \<^verbatim>\<open>consecutiveNoCard > REMOVAL_CHECKS\<close>. With no
  command pending: after six failed polls in a row the loop is still running, with its
  counter at 6; a successful poll followed by six failed ones has not ended it; the
  seventh failed poll in a row ends it; and a successful poll after five failures
  puts the counter back to 0.
\<close>

theorem dwell_loop_exits_at_seventh_failure:
  "wait_loop v (replicate 6 NoCard @ ps) 0 (w\<lparr>serial := replicate 6 None @ ins\<rparr>)
     = wait_loop v ps 6 (w\<lparr>serial := ins\<rparr>)
   \<and> wait_loop v (CardRead sz bs # replicate 6 NoCard) 0 (w\<lparr>serial := replicate 7 None\<rparr>) = None
   \<and> wait_loop v (replicate 7 NoCard @ ps) 0 (w\<lparr>serial := replicate 7 None @ ins\<rparr>)
     = Some (w\<lparr>serial := ins\<rparr>, ps)
   \<and> wait_loop v (replicate 5 NoCard @ CardRead sz bs # ps) 0 (w\<lparr>serial := replicate 6 None @ ins\<rparr>)
     = wait_loop v ps 0 (w\<lparr>serial := ins, uid_size := sz, uid_uidByte := bs\<rparr>)"
  by (simp add: eval_nat_numeral service_serial_def REMOVAL_CHECKS_def)

lemma readLineFromSerial_world:
  "readLineFromSerial t w = Some (s, w') \<Longrightarrow>
     EEPROM w' = EEPROM w \<and> currentUID w' = currentUID w \<and> currentUIDLen w' = currentUIDLen w
     \<and> uid_size w' = uid_size w \<and> uid_uidByte w' = uid_uidByte w"
  by (auto simp: readLineFromSerial_def split: list.splits option.splits)

text \<open>The command part after a character has been read, as a function of the world.\<close>

lemma service_serial_Some:
  "serial w = Some ch # ins \<Longrightarrow> service_serial v w =
     (let w1 = w\<lparr>serial := ins\<rparr> in
      if ch = CHR ''a'' \<or> ch = CHR ''A'' then
        (case v of
           Bare \<Rightarrow> Some (w1\<lparr>EEPROM := fst (addCard (EEPROM w1) (currentUID w1) (currentUIDLen w1))\<rparr>)
         | Named \<Rightarrow>
             (case readLineFromSerial 30000 w1 of
                None \<Rightarrow> None
              | Some (name0, w2) \<Rightarrow>
                  let name = trim name0 in
                  if length name = 0 then Some w2
                  else Some (w2\<lparr>EEPROM :=
                    fst (addCardWithName (EEPROM w2) (currentUID w2) (currentUIDLen w2) name)\<rparr>)))
      else if ch = CHR ''r'' \<or> ch = CHR ''R'' then
        Some (w1\<lparr>EEPROM := fst (removeCard v (EEPROM w1) (currentUID w1) (currentUIDLen w1))\<rparr>)
      else if ch = CHR ''p'' \<or> ch = CHR ''P'' then
        (case printAuthorizedList v (EEPROM w1) of None \<Rightarrow> None | Some out \<Rightarrow> Some w1)
      else if ch = CHR ''c'' \<or> ch = CHR ''C'' then
        Some (w1\<lparr>EEPROM := clearAuthorizedList v (EEPROM w1)\<rparr>)
      else Some w1)"
  by (simp add: service_serial_def)

lemma service_serial_currentUID:
  assumes "service_serial v w = Some w'"
  shows "currentUID w' = currentUID w \<and> currentUIDLen w' = currentUIDLen w"
proof (cases "serial w")
  case Nil
  with assms show ?thesis by (simp add: service_serial_def)
next
  case (Cons x ins)
  show ?thesis
  proof (cases x)
    case None
    with assms Cons show ?thesis by (auto simp: service_serial_def)
  next
    case (Some ch)
    define w1 where "w1 = w\<lparr>serial := ins\<rparr>"
    have w1: "currentUID w1 = currentUID w" "currentUIDLen w1 = currentUIDLen w"
      by (simp_all add: w1_def)
    note ss = service_serial_Some[OF Cons[unfolded Some], of v, unfolded Let_def, folded w1_def]
    have named: "currentUID w' = currentUID w1 \<and> currentUIDLen w' = currentUIDLen w1"
      if "(case readLineFromSerial 30000 w1 of
             None \<Rightarrow> None
           | Some (name0, w2) \<Rightarrow>
               if length (trim name0) = 0 then Some w2
               else Some (w2\<lparr>EEPROM :=
                 fst (addCardWithName (EEPROM w2) (currentUID w2) (currentUIDLen w2) (trim name0))\<rparr>))
          = Some w'"
    proof (cases "readLineFromSerial 30000 w1")
      case None
      with that show ?thesis by simp
    next
      case (Some r)
      obtain s wa where r: "r = (s, wa)" by (cases r)
      from readLineFromSerial_world[OF Some[unfolded r]]
      have "currentUID wa = currentUID w1" "currentUIDLen wa = currentUIDLen w1" by simp_all
      moreover from that Some r have "w' = wa \<or> w' = wa\<lparr>EEPROM :=
          fst (addCardWithName (EEPROM wa) (currentUID wa) (currentUIDLen wa) (trim s))\<rparr>"
        by (simp split: if_splits)
      ultimately show ?thesis by auto
    qed
    consider (add) "ch = CHR ''a'' \<or> ch = CHR ''A''"
      | (rem) "\<not> (ch = CHR ''a'' \<or> ch = CHR ''A'')" "ch = CHR ''r'' \<or> ch = CHR ''R''"
      | (prt) "\<not> (ch = CHR ''a'' \<or> ch = CHR ''A'')" "\<not> (ch = CHR ''r'' \<or> ch = CHR ''R'')"
          "ch = CHR ''p'' \<or> ch = CHR ''P''"
      | (clr) "\<not> (ch = CHR ''a'' \<or> ch = CHR ''A'')" "\<not> (ch = CHR ''r'' \<or> ch = CHR ''R'')"
          "\<not> (ch = CHR ''p'' \<or> ch = CHR ''P'')" "ch = CHR ''c'' \<or> ch = CHR ''C''"
      | (other) "\<not> (ch = CHR ''a'' \<or> ch = CHR ''A'')" "\<not> (ch = CHR ''r'' \<or> ch = CHR ''R'')"
          "\<not> (ch = CHR ''p'' \<or> ch = CHR ''P'')" "\<not> (ch = CHR ''c'' \<or> ch = CHR ''C'')"
      by blast
    then show ?thesis
    proof cases
      case add
      show ?thesis
      proof (cases v)
        case Bare
        from assms[unfolded Bare ss[unfolded Bare] if_P[OF add] variant.case] w1
        show ?thesis by auto
      next
        case Named
        from named[OF assms[unfolded Named ss[unfolded Named] if_P[OF add] variant.case]] w1
        show ?thesis by simp
      qed
    next
      case rem
      from assms[unfolded ss if_not_P[OF rem(1)] if_P[OF rem(2)]] w1 show ?thesis by auto
    next
      case prt
      from assms[unfolded ss if_not_P[OF prt(1)] if_not_P[OF prt(2)] if_P[OF prt(3)]] w1
      show ?thesis by (cases "printAuthorizedList v (EEPROM w1)") auto
    next
      case clr
      from assms[unfolded ss if_not_P[OF clr(1)] if_not_P[OF clr(2)] if_not_P[OF clr(3)]
          if_P[OF clr(4)]] w1
      show ?thesis by auto
    next
      case other
      from assms[unfolded ss if_not_P[OF other(1)] if_not_P[OF other(2)] if_not_P[OF other(3)]
          if_not_P[OF other(4)]] w1
      show ?thesis by auto
    qed
  qed
qed

lemma wait_loop_currentUID:
  "wait_loop v ps n w = Some (w', ps') \<Longrightarrow>
     currentUID w' = currentUID w \<and> currentUIDLen w' = currentUIDLen w"
proof (induction ps arbitrary: n w)
  case Nil
  then show ?case by simp
next
  case (Cons p ps)
  from Cons.prems obtain w1 where s: "service_serial v w = Some w1"
    by (auto split: option.splits)
  note u = service_serial_currentUID[OF s]
  show ?case
  proof (cases p)
    case (CardRead sz bs)
    with Cons.prems s have "wait_loop v ps 0 (w1\<lparr>uid_size := sz, uid_uidByte := bs\<rparr>) = Some (w', ps')"
      by simp
    from Cons.IH[OF this] u show ?thesis by simp
  next
    case NoCard
    with Cons.prems s have "(w', ps') = (w1, ps) \<or> wait_loop v ps (n + 1) w1 = Some (w', ps')"
      by (auto simp: Let_def split: if_splits)
    then show ?thesis using u Cons.IH by auto
  next
    case ReadFail
    with Cons.prems s have "(w', ps') = (w1, ps) \<or> wait_loop v ps (n + 1) w1 = Some (w', ps')"
      by (auto simp: Let_def split: if_splits)
    then show ?thesis using u Cons.IH by auto
  qed
qed

lemma view_reader: "view (w\<lparr>uid_size := a, uid_uidByte := b\<rparr>) = view w"
  by (simp add: view_def)

lemma readLineFromSerial_view:
  assumes "view w = view w2"
  shows "map_option (\<lambda>(s, w'). (s, view w')) (readLineFromSerial t w)
       = map_option (\<lambda>(s, w'). (s, view w')) (readLineFromSerial t w2)"
  using assms
  by (auto simp: readLineFromSerial_def view_def split: list.splits option.splits)

lemma service_serial_view:
  assumes "view w = view w2"
  shows "map_option view (service_serial v w) = map_option view (service_serial v w2)"
proof -
  have eq: "EEPROM w = EEPROM w2" "currentUID w = currentUID w2" "currentUIDLen w = currentUIDLen w2"
    "clock w = clock w2" and ser: "serial w = serial w2"
    using assms by (simp_all add: view_def)
  show ?thesis
  proof (cases "serial w")
    case Nil
    then show ?thesis using ser by (simp add: service_serial_def)
  next
    case (Cons x ins)
    then have Cons2: "serial w2 = x # ins" using ser by simp
    show ?thesis
    proof (cases x)
      case None
      then show ?thesis using eq by (simp add: service_serial_def view_def Cons Cons2)
    next
      case (Some ch)
      define w1 where "w1 = w\<lparr>serial := ins\<rparr>"
      define w1' where "w1' = w2\<lparr>serial := ins\<rparr>"
      have v1: "view w1 = view w1'" using eq by (simp add: view_def w1_def w1'_def)
      have e1: "EEPROM w1 = EEPROM w1'" "currentUID w1 = currentUID w1'"
        "currentUIDLen w1 = currentUIDLen w1'"
        using eq by (simp_all add: w1_def w1'_def)
      have upd: "view (w1\<lparr>EEPROM := x\<rparr>) = view (w1'\<lparr>EEPROM := x\<rparr>)" for x
        using v1 by (simp add: view_def)
      note rl = readLineFromSerial_view[OF v1, of 30000]
      have named: "map_option view
          (case readLineFromSerial 30000 w1 of
             None \<Rightarrow> None
           | Some (name0, w2) \<Rightarrow>
               let name = trim name0 in
               if length name = 0 then Some w2
               else Some (w2\<lparr>EEPROM :=
                 fst (addCardWithName (EEPROM w2) (currentUID w2) (currentUIDLen w2) name)\<rparr>))
        = map_option view
          (case readLineFromSerial 30000 w1' of
             None \<Rightarrow> None
           | Some (name0, w2) \<Rightarrow>
               let name = trim name0 in
               if length name = 0 then Some w2
               else Some (w2\<lparr>EEPROM :=
                 fst (addCardWithName (EEPROM w2) (currentUID w2) (currentUIDLen w2) name)\<rparr>))"
      proof (cases "readLineFromSerial 30000 w1")
        case None
        with rl have "readLineFromSerial 30000 w1' = None" by simp
        with None show ?thesis by simp
      next
        case (Some r)
        obtain s wa where r: "r = (s, wa)" by (cases r)
        from rl Some r obtain wb where
          rb: "readLineFromSerial 30000 w1' = Some (s, wb)" and vv: "view wa = view wb"
          by (cases "readLineFromSerial 30000 w1'") (auto split: prod.splits)
        from vv have "EEPROM wa = EEPROM wb" "currentUID wa = currentUID wb"
          "currentUIDLen wa = currentUIDLen wb" "serial wa = serial wb" "clock wa = clock wb"
          by (simp_all add: view_def)
        then show ?thesis unfolding Some r rb by (simp add: view_def Let_def)
      qed
      note ss = service_serial_Some[OF Cons[unfolded Some], of v, unfolded Let_def, folded w1_def]
        service_serial_Some[OF Cons2[unfolded Some], of v, unfolded Let_def, folded w1'_def]
      consider (add) "ch = CHR ''a'' \<or> ch = CHR ''A''"
        | (rem) "\<not> (ch = CHR ''a'' \<or> ch = CHR ''A'')" "ch = CHR ''r'' \<or> ch = CHR ''R''"
        | (prt) "\<not> (ch = CHR ''a'' \<or> ch = CHR ''A'')" "\<not> (ch = CHR ''r'' \<or> ch = CHR ''R'')"
            "ch = CHR ''p'' \<or> ch = CHR ''P''"
        | (clr) "\<not> (ch = CHR ''a'' \<or> ch = CHR ''A'')" "\<not> (ch = CHR ''r'' \<or> ch = CHR ''R'')"
            "\<not> (ch = CHR ''p'' \<or> ch = CHR ''P'')" "ch = CHR ''c'' \<or> ch = CHR ''C''"
        | (other) "\<not> (ch = CHR ''a'' \<or> ch = CHR ''A'')" "\<not> (ch = CHR ''r'' \<or> ch = CHR ''R'')"
            "\<not> (ch = CHR ''p'' \<or> ch = CHR ''P'')" "\<not> (ch = CHR ''c'' \<or> ch = CHR ''C'')"
        by blast
      then show ?thesis
      proof cases
        case add
        show ?thesis
        proof (cases v)
          case Bare
          show ?thesis unfolding Bare ss[unfolded Bare] if_P[OF add] variant.case e1 using upd by simp
        next
          case Named
          show ?thesis unfolding Named ss[unfolded Named] if_P[OF add] variant.case by (rule named[unfolded Let_def])
        qed
      next
        case rem
        show ?thesis unfolding ss if_not_P[OF rem(1)] if_P[OF rem(2)] e1 using upd by simp
      next
        case prt
        show ?thesis
          unfolding ss if_not_P[OF prt(1)] if_not_P[OF prt(2)] if_P[OF prt(3)] e1
          using v1 by (cases "printAuthorizedList v (EEPROM w1')") simp_all
      next
        case clr
        show ?thesis
          unfolding ss if_not_P[OF clr(1)] if_not_P[OF clr(2)] if_not_P[OF clr(3)] if_P[OF clr(4)] e1
          using upd by simp
      next
        case other
        show ?thesis
          unfolding ss if_not_P[OF other(1)] if_not_P[OF other(2)] if_not_P[OF other(3)]
            if_not_P[OF other(4)]
          using v1 by simp
      qed
    qed
  qed
qed

lemma wait_loop_view:
  assumes "view w = view w2" "map poll_ok ps = map poll_ok qs"
  shows "map_option (\<lambda>(w', r). (view w', length r)) (wait_loop v ps n w)
       = map_option (\<lambda>(w', r). (view w', length r)) (wait_loop v qs n w2)"
  using assms
proof (induction ps arbitrary: qs n w w2)
  case Nil
  then show ?case by simp
next
  case (Cons p ps)
  then obtain q qs' where qs: "qs = q # qs'" and pq: "poll_ok p = poll_ok q"
    and rest: "map poll_ok ps = map poll_ok qs'" by (cases qs) auto
  have len: "length ps = length qs'" using rest by (metis length_map)
  note sv = service_serial_view[OF Cons.prems(1), of v]
  show ?case
  proof (cases "service_serial v w")
    case None
    with sv have "service_serial v w2 = None" by simp
    with None show ?thesis by (simp add: qs)
  next
    case (Some w1)
    with sv obtain w1' where s2: "service_serial v w2 = Some w1'" and v1: "view w1 = view w1'"
      by (cases "service_serial v w2") auto
    show ?thesis
    proof (cases "poll_ok p")
      case True
      then obtain sz bs where p: "p = CardRead sz bs" by (cases p) (simp_all add: poll_ok_def)
      from True pq obtain sz' bs' where q: "q = CardRead sz' bs'"
        by (cases q) (simp_all add: poll_ok_def)
      have "view (w1\<lparr>uid_size := sz, uid_uidByte := bs\<rparr>) = view (w1'\<lparr>uid_size := sz', uid_uidByte := bs'\<rparr>)"
        using v1 by (simp add: view_reader)
      from Cons.IH[OF this rest] show ?thesis by (simp add: qs p q Some s2)
    next
      case False
      then have p: "wait_loop v (p # ps) n w =
          (if n + 1 > REMOVAL_CHECKS then Some (w1, ps) else wait_loop v ps (n + 1) w1)"
        using Some by (cases p) (simp_all add: poll_ok_def Let_def)
      from False pq have q: "wait_loop v (q # qs') n w2 =
          (if n + 1 > REMOVAL_CHECKS then Some (w1', qs') else wait_loop v qs' (n + 1) w1')"
        using s2 by (cases q) (simp_all add: poll_ok_def Let_def)
      show ?thesis unfolding qs p q using Cons.IH[OF v1 rest] v1 len by simp
    qed
  qed
qed

text \<open>
  C10. The dwell loop never changes \<^verbatim>\<open>currentUID\<close> and \<^verbatim>\<open>currentUIDLen\<close>: when it ends they are
  what they were when it started. What it does to the EEPROM, the serial port and the
  clock depends on the polls only through which of them succeeded, not on the cards
  they read: the commands act on the identifier captured before the loop.
\<close>

theorem dwell_loop_keeps_active_identifier:
  "(wait_loop v ps n w = Some (w', ps') \<longrightarrow>
      currentUID w' = currentUID w \<and> currentUIDLen w' = currentUIDLen w)
   \<and> (map poll_ok ps = map poll_ok qs \<longrightarrow>
        map_option (\<lambda>(w', r). (view w', length r)) (wait_loop v ps n w)
          = map_option (\<lambda>(w', r). (view w', length r)) (wait_loop v qs n w))"
  using wait_loop_currentUID[of v ps n w w' ps'] wait_loop_view[of w w ps qs v n] by simp

theorem dwell_loop_keeps_active_identifier_witness:
  "map_option (\<lambda>(w', r). (currentUID w', currentUIDLen w', r))
     (wait_loop Bare (CardRead 4 [9, 9, 9, 9] # replicate 7 NoCard) 0
        \<lparr>EEPROM = (\<lambda>_. 0), currentUID = [1, 2, 3, 4], currentUIDLen = 4, uid_size = 4,
         uid_uidByte = [1, 2, 3, 4], serial = Some CHR ''a'' # replicate 7 None, clock = []\<rparr>)
   = Some ([1, 2, 3, 4], 4, [])
   \<and> map_option (\<lambda>(w', r). (view w', length r))
       (wait_loop Bare (CardRead 4 [9, 9, 9, 9] # replicate 7 NoCard) 0
          \<lparr>EEPROM = (\<lambda>_. 0), currentUID = [1, 2, 3, 4], currentUIDLen = 4, uid_size = 4,
           uid_uidByte = [1, 2, 3, 4], serial = Some CHR ''a'' # replicate 7 None, clock = []\<rparr>)
     = map_option (\<lambda>(w', r). (view w', length r))
       (wait_loop Bare (CardRead 7 [5, 5, 5, 5, 5, 5, 5] # replicate 7 ReadFail) 0
          \<lparr>EEPROM = (\<lambda>_. 0), currentUID = [1, 2, 3, 4], currentUIDLen = 4, uid_size = 4,
           uid_uidByte = [1, 2, 3, 4], serial = Some CHR ''a'' # replicate 7 None, clock = []\<rparr>)"
proof -
  define w0 where "w0 = \<lparr>EEPROM = (\<lambda>_. 0), currentUID = [1, 2, 3, 4], currentUIDLen = 4,
    uid_size = 4, uid_uidByte = [1, 2, 3, 4 :: byte], serial = Some CHR ''a'' # replicate 7 None,
    clock = ([] :: 32 word list)\<rparr>"
  define ps where "ps = CardRead 4 [9, 9, 9, 9] # replicate 7 NoCard"
  define qs where "qs = CardRead 7 [5, 5, 5, 5, 5, 5, 5] # replicate 7 ReadFail"
  define w1 where "w1 = w0\<lparr>EEPROM := fst (addCard (EEPROM w0) (currentUID w0) (currentUIDLen w0)),
    uid_size := 4, uid_uidByte := [9, 9, 9, 9], serial := []\<rparr>"
  have r: "wait_loop Bare ps 0 w0 = Some (w1, [])"
    by (simp add: ps_def w0_def w1_def eval_nat_numeral service_serial_def REMOVAL_CHECKS_def)
  have p: "map poll_ok ps = map poll_ok qs"
    by (simp add: ps_def qs_def poll_ok_def)
  note t = dwell_loop_keeps_active_identifier[of Bare ps 0 w0 w1 "[]" qs]
  from t r have "currentUID w1 = currentUID w0 \<and> currentUIDLen w1 = currentUIDLen w0" by blast
  then have a: "map_option (\<lambda>(w', r). (currentUID w', currentUIDLen w', r)) (wait_loop Bare ps 0 w0)
      = Some ([1, 2, 3, 4], 4, [])"
    unfolding r by (simp add: w0_def)
  from t p have b: "map_option (\<lambda>(w', r). (view w', length r)) (wait_loop Bare ps 0 w0)
      = map_option (\<lambda>(w', r). (view w', length r)) (wait_loop Bare qs 0 w0)" by blast
  show ?thesis using a b unfolding w0_def ps_def qs_def by blast
qed

section \<open>Reading a line\<close>









section \<open>Enumeration and the stored names\<close>

lemma read_name_buf_eq:
  "0 \<le> i \<Longrightarrow> read_name_buf e addr nlen i =
     map (\<lambda>k. char_of (uint (e (addr + 1 + MAX_UID_LEN + 1 + int k)))) [nat i..<nat nlen]"
proof (induction e addr nlen i rule: read_name_buf.induct)
  case (1 e addr nlen i)
  show ?case
  proof (cases "i < nlen")
    case False
    then show ?thesis by (subst read_name_buf.simps) simp
  next
    case True
    have "[nat i..<nat nlen] = nat i # [nat (i + 1)..<nat nlen]"
      using True "1.prems" by (simp add: upt_conv_Cons nat_add_distrib)
    then show ?thesis
      using True "1.prems" "1.IH"[OF True] by (subst read_name_buf.simps) simp
  qed
qed



lemma readNameFromEEPROM_eq:
  "readNameFromEEPROM e i =
     (if e (entryAddress Named i + 1 + MAX_UID_LEN) = 0 then Some ''NoName''
      else if uint (e (entryAddress Named i + 1 + MAX_UID_LEN)) > MAX_NAME_LEN then None
      else Some (takeWhile (\<lambda>c. c \<noteq> CHR 0x00) (stored_label e i)))"
  by (simp add: readNameFromEEPROM_def Let_def read_name_buf_eq stored_label_def)




lemma unat_of_nat_byte: "n \<le> 255 \<Longrightarrow> unat (word_of_nat n :: byte) = n"
  by (simp add: unat_of_nat)

lemma uint_of_nat_byte: "n \<le> 255 \<Longrightarrow> uint (word_of_nat n :: byte) = int n"
  using unat_of_nat_byte[of n] by (metis uint_unat)

lemma addCardWithName_label:
  assumes "snd (addCardWithName e uid len name0)"
  defines "e' \<equiv> fst (addCardWithName e uid len name0)"
    and "c \<equiv> uint (readCount Named e)" and "name \<equiv> take (nat MAX_NAME_LEN) name0"
  shows "e' (entryAddress Named c + 1 + MAX_UID_LEN) = word_of_nat (length name)"
    and "stored_label e' c = name"
    and "readNameFromEEPROM e' c =
      (if name = [] then Some ''NoName'' else Some (takeWhile (\<lambda>c. c \<noteq> CHR 0x00) name))"
proof -
  define addr where "addr = entryAddress Named c"
  have l20: "length name \<le> 20" by (simp add: name_def MAX_NAME_LEN_def)
  have c0: "EEPROM_ADDR_COUNT < addr"
    unfolding addr_def c_def by (rule entryAddress_neq_count) simp
  note eff = addCardWithName_effect[OF assms(1), folded e'_def, unfolded Let_def,
      folded c_def name_def, folded addr_def]
  show 1: "e' (entryAddress Named c + 1 + MAX_UID_LEN) = word_of_nat (length name)"
    unfolding addr_def[symmetric] using c0 by (simp add: eff MAX_UID_LEN_def)
  have u: "unat (word_of_nat (length name) :: byte) = length name"
    using l20 by (intro unat_of_nat_byte) simp
  have b: "e' (addr + 1 + MAX_UID_LEN + 1 + int k) = of_char (name ! k)" if "k < length name" for k
    using that c0 l20 by (simp add: eff MAX_UID_LEN_def MAX_NAME_LEN_def)
  show 2: "stored_label e' c = name"
    unfolding stored_label_def addr_def[symmetric] 1[unfolded addr_def[symmetric]] u
  proof (rule nth_equalityI)
    show "length (map (\<lambda>k. char_of (uint (e' (addr + 1 + MAX_UID_LEN + 1 + int k))))
        [0..<length name]) = length name" by simp
  next
    fix k assume "k < length (map (\<lambda>k. char_of (uint (e' (addr + 1 + MAX_UID_LEN + 1 + int k))))
        [0..<length name])"
    then have k: "k < length name" by simp
    then have "map (\<lambda>k. char_of (uint (e' (addr + 1 + MAX_UID_LEN + 1 + int k))))
        [0..<length name] ! k = char_of (uint (e' (addr + 1 + MAX_UID_LEN + 1 + int k)))"
      by simp
    also have "\<dots> = name ! k" unfolding b[OF k] by (rule char_byte_roundtrip)
    finally show "map (\<lambda>k. char_of (uint (e' (addr + 1 + MAX_UID_LEN + 1 + int k))))
        [0..<length name] ! k = name ! k" .
  qed
  have z: "(word_of_nat (length name) :: byte) = 0 \<longleftrightarrow> name = []"
    using u by (metis length_0_conv unat_0 word_unat_eq_iff)
  have "uint (word_of_nat (length name) :: byte) \<le> MAX_NAME_LEN"
    using l20 uint_of_nat_byte[of "length name"] by (simp add: MAX_NAME_LEN_def)
  then show "readNameFromEEPROM e' c =
      (if name = [] then Some ''NoName'' else Some (takeWhile (\<lambda>c. c \<noteq> CHR 0x00) name))"
    unfolding readNameFromEEPROM_eq 1 2 z by simp
qed

lemma takeWhile_no_nul: "CHR 0x00 \<notin> set s \<Longrightarrow> takeWhile (\<lambda>c. c \<noteq> CHR 0x00) s = s"
  by (induction s) auto




lemma length_stored_names: "length (stored_names e) = unat (readCount Named e)"
  by (simp add: stored_names_def)





section \<open>The identifier handed to insert\<close>

lemma copy_uid_effect:
  "0 \<le> i \<Longrightarrow> length (copy_uid cur uidByte len i) = length cur
     \<and> (\<forall>k < length cur. copy_uid cur uidByte len i ! k =
           (if nat i \<le> k \<and> int k < len then uidByte ! k else cur ! k))"
proof (induction cur uidByte len i rule: copy_uid.induct)
  case (1 cur uidByte len i)
  show ?case
  proof (cases "i < len")
    case False
    then show ?thesis using "1.prems" by (subst (1 2) copy_uid.simps) auto
  next
    case True
    define cur1 where "cur1 = cur[nat i := uidByte ! nat i]"
    have s: "copy_uid cur uidByte len i = copy_uid cur1 uidByte len (i + 1)"
      using True by (subst copy_uid.simps) (simp add: cur1_def)
    have ih: "length (copy_uid cur1 uidByte len (i + 1)) = length cur1
      \<and> (\<forall>k < length cur1. copy_uid cur1 uidByte len (i + 1) ! k =
            (if nat (i + 1) \<le> k \<and> int k < len then uidByte ! k else cur1 ! k))"
      unfolding cur1_def by (rule "1.IH"[OF True]) (use "1.prems" in simp)
    have "(if nat (i + 1) \<le> k \<and> int k < len then uidByte ! k else cur1 ! k)
        = (if nat i \<le> k \<and> int k < len then uidByte ! k else cur ! k)" if "k < length cur" for k
      using that True "1.prems" by (auto simp: cur1_def nth_list_update)
    then show ?thesis unfolding s using ih by (simp add: cur1_def)
  qed
qed

lemma read_uid_len:
  "currentUIDLen (read_uid w) = (if uint (uid_size w) > MAX_UID_LEN then 10 else uid_size w)"
  by (simp add: read_uid_def Let_def MAX_UID_LEN_def)

lemma read_uid_bytes:
  assumes "unat (currentUIDLen (read_uid w)) \<le> length (currentUID w)"
    and "unat (currentUIDLen (read_uid w)) \<le> length (uid_uidByte w)"
  shows "take (unat (currentUIDLen (read_uid w))) (currentUID (read_uid w))
       = take (unat (currentUIDLen (read_uid w))) (uid_uidByte w)"
proof -
  define n where "n = currentUIDLen (read_uid w)"
  have cu: "currentUID (read_uid w) = copy_uid (currentUID w) (uid_uidByte w) (uint n) 0"
    by (simp add: read_uid_def Let_def n_def)
  note ce = copy_uid_effect[of 0 "currentUID w" "uid_uidByte w" "uint n", simplified]
  show ?thesis
    unfolding n_def[symmetric] cu
  proof (rule nth_equalityI)
    show "length (take (unat n) (copy_uid (currentUID w) (uid_uidByte w) (uint n) 0))
        = length (take (unat n) (uid_uidByte w))"
      using assms ce by (simp add: n_def)
  next
    fix k assume "k < length (take (unat n) (copy_uid (currentUID w) (uid_uidByte w) (uint n) 0))"
    then have k: "k < unat n" "k < length (currentUID w)" using ce by simp_all
    then have "int k < uint n" by (simp add: int_less_uint_iff)
    then show "take (unat n) (copy_uid (currentUID w) (uid_uidByte w) (uint n) 0) ! k
        = take (unat n) (uid_uidByte w) ! k"
      using k ce by simp
  qed
qed

text \<open>
  C8, as the code has it. \<^verbatim>\<open>addCardWithName\<close> has no test on the identifier's length: it
  returns false only for an empty identifier, a full registry or a duplicate. On
  success it stores the length byte it was given and the first \<open>MAX_UID_LEN\<close> bytes,
  padded with zeros; it stores the label cut to its first 20 characters, and a
  non-empty label without NUL is read back as these 20 characters. The identifier it
  is given by the sketch has already been clamped by \<^verbatim>\<open>loop()\<close>: \<^verbatim>\<open>currentUIDLen\<close> is the reader's
  size or, above \<open>MAX_UID_LEN\<close>, 10, and \<^verbatim>\<open>currentUID\<close> holds that many leading bytes of the
  reader's.
\<close>

theorem insert_checks_no_identifier_length:
  "(\<not> snd (addCardWithName e uid len name) \<longleftrightarrow>
       len = 0 \<or> uint (readCount Named e) = MAX_CARDS Named \<or> 0 \<le> findIndex Named e uid len)
   \<and> (snd (addCardWithName e uid len name) \<longrightarrow>
        fst (addCardWithName e uid len name) (entryAddress Named (uint (readCount Named e))) = len
        \<and> (\<forall>k \<in> {0..<MAX_UID_LEN}.
              fst (addCardWithName e uid len name) (entryAddress Named (uint (readCount Named e)) + 1 + k)
                = (if k < uint len then uid ! nat k else 0))
        \<and> fst (addCardWithName e uid len name)
              (entryAddress Named (uint (readCount Named e)) + 1 + MAX_UID_LEN)
            = word_of_nat (min (length name) 20)
        \<and> stored_label (fst (addCardWithName e uid len name)) (uint (readCount Named e))
            = take 20 name
        \<and> (name \<noteq> [] \<and> CHR 0x00 \<notin> set (take 20 name) \<longrightarrow>
              readNameFromEEPROM (fst (addCardWithName e uid len name)) (uint (readCount Named e))
                = Some (take 20 name)))
   \<and> currentUIDLen (read_uid w) = (if uint (uid_size w) > MAX_UID_LEN then 10 else uid_size w)
   \<and> (unat (currentUIDLen (read_uid w)) \<le> length (currentUID w)
        \<and> unat (currentUIDLen (read_uid w)) \<le> length (uid_uidByte w) \<longrightarrow>
        take (unat (currentUIDLen (read_uid w))) (currentUID (read_uid w))
          = take (unat (currentUIDLen (read_uid w))) (uid_uidByte w))"
proof (intro conjI impI ballI)
  show "(\<not> snd (addCardWithName e uid len name)) =
      (len = 0 \<or> uint (readCount Named e) = MAX_CARDS Named \<or> 0 \<le> findIndex Named e uid len)"
    by (rule addCardWithName_fails_iff)
  show "currentUIDLen (read_uid w) = (if uint (uid_size w) > MAX_UID_LEN then 10 else uid_size w)"
    by (rule read_uid_len)
  show "take (unat (currentUIDLen (read_uid w))) (currentUID (read_uid w))
      = take (unat (currentUIDLen (read_uid w))) (uid_uidByte w)"
    if "unat (currentUIDLen (read_uid w)) \<le> length (currentUID w)
        \<and> unat (currentUIDLen (read_uid w)) \<le> length (uid_uidByte w)"
    using that by (intro read_uid_bytes) simp_all
next
  assume ok: "snd (addCardWithName e uid len name)"
  define addr where "addr = entryAddress Named (uint (readCount Named e))"
  have c0: "EEPROM_ADDR_COUNT < addr" unfolding addr_def by (rule entryAddress_neq_count) simp
  note eff = addCardWithName_effect[OF ok, unfolded Let_def, folded addr_def]
  note lb = addCardWithName_label[OF ok, unfolded MAX_NAME_LEN_def, simplified]
  show "fst (addCardWithName e uid len name) (entryAddress Named (uint (readCount Named e))) = len"
    unfolding addr_def[symmetric] using c0 by (simp add: eff)
  show "fst (addCardWithName e uid len name) (entryAddress Named (uint (readCount Named e)) + 1 + k)
      = (if k < uint len then uid ! nat k else 0)" if "k \<in> {0..<MAX_UID_LEN}" for k
    unfolding addr_def[symmetric] using c0 that by (simp add: eff)
  show "fst (addCardWithName e uid len name)
        (entryAddress Named (uint (readCount Named e)) + 1 + MAX_UID_LEN)
      = word_of_nat (min (length name) 20)"
    using lb(1) by simp
  show "stored_label (fst (addCardWithName e uid len name)) (uint (readCount Named e)) = take 20 name"
    by (rule lb(2))
  show "readNameFromEEPROM (fst (addCardWithName e uid len name)) (uint (readCount Named e))
      = Some (take 20 name)" if "name \<noteq> [] \<and> CHR 0x00 \<notin> set (take 20 name)"
    using lb(3) that by (simp add: takeWhile_no_nul)
qed

text \<open>
  An identifier of 11 bytes is accepted by \<^verbatim>\<open>addCardWithName\<close>, which stores the length 11
  and ten bytes; and a card whose reader size is 12 is added by the sketch with its
  first ten bytes and the length 10.
\<close>

theorem insert_accepts_eleven_byte_identifier:
  "snd (addCardWithName (\<lambda>_. 0) [1, 2, 3, 4, 5, 6, 7, 8, 9, 10, 11] 11 ''Al'')
   \<and> map (fst (addCardWithName (\<lambda>_. 0) [1, 2, 3, 4, 5, 6, 7, 8, 9, 10, 11] 11 ''Al'')) [10, 11, 20, 21]
       = [11, 1, 10, 2]
   \<and> map_option (\<lambda>(w', ps). (map (EEPROM w') [0, 10, 11, 20, 21, 22, 23], currentUIDLen w'))
       (loop Named (CardRead 12 [1, 2, 3, 4, 5, 6, 7, 8, 9, 10, 11, 12] # replicate 7 NoCard)
          \<lparr>EEPROM = (\<lambda>_. 0), currentUID = [0, 0, 0, 0, 0, 0, 0, 0, 0, 0], currentUIDLen = 0,
           uid_size = 0, uid_uidByte = [],
           serial = [Some CHR ''a'', Some CHR ''A'', Some CHR ''l'', Some (CHR 0x0A)] @ replicate 6 None,
           clock = [0]\<rparr>)
     = Some ([1, 10, 1, 10, 2, 65, 108], 10)"
  by code_simp

theorem insert_checks_no_identifier_length_witness:
  "readNameFromEEPROM
     (fst (addCardWithName (\<lambda>_. 0) [1, 2, 3, 4, 5, 6, 7, 8, 9, 10, 11] 11 ''abcdefghijklmnopqrstuvwxy'')) 0
     = Some ''abcdefghijklmnopqrst''
   \<and> currentUIDLen (read_uid \<lparr>EEPROM = (\<lambda>_. 0), currentUID = [0, 0, 0, 0, 0, 0, 0, 0, 0, 0],
        currentUIDLen = 0, uid_size = 12, uid_uidByte = [1, 2, 3, 4, 5, 6, 7, 8, 9, 10, 11, 12],
        serial = [], clock = []\<rparr>) = 10
   \<and> take 10 (currentUID (read_uid \<lparr>EEPROM = (\<lambda>_. 0), currentUID = [0, 0, 0, 0, 0, 0, 0, 0, 0, 0],
        currentUIDLen = 0, uid_size = 12, uid_uidByte = [1, 2, 3, 4, 5, 6, 7, 8, 9, 10, 11, 12],
        serial = [], clock = []\<rparr>)) = [1, 2, 3, 4, 5, 6, 7, 8, 9, 10]"
proof -
  define w :: world where "w = \<lparr>EEPROM = (\<lambda>_. 0), currentUID = [0, 0, 0, 0, 0, 0, 0, 0, 0, 0],
        currentUIDLen = 0, uid_size = 12, uid_uidByte = [1, 2, 3, 4, 5, 6, 7, 8, 9, 10, 11, 12],
        serial = [], clock = []\<rparr>"
  define e :: eeprom where "e = (\<lambda>_. 0)"
  define uid :: "byte list" where "uid = [1, 2, 3, 4, 5, 6, 7, 8, 9, 10, 11]"
  have rc: "readCount Named e = 0" by (simp add: e_def readCount_def)
  have ok: "snd (addCardWithName e uid 11 ''abcdefghijklmnopqrstuvwxy'')"
    unfolding e_def uid_def by code_simp
  note t = insert_checks_no_identifier_length[of e uid 11 "''abcdefghijklmnopqrstuvwxy''" w]
  from t ok have a: "readNameFromEEPROM (fst (addCardWithName e uid 11 ''abcdefghijklmnopqrstuvwxy'')) 0
      = Some ''abcdefghijklmnopqrst''"
    by (simp add: rc)
  from t have b: "currentUIDLen (read_uid w) = 10" by (simp add: w_def MAX_UID_LEN_def)
  have l: "unat (currentUIDLen (read_uid w)) = 10" unfolding b by simp
  from t have "take (unat (currentUIDLen (read_uid w))) (currentUID (read_uid w))
      = take (unat (currentUIDLen (read_uid w))) (uid_uidByte w)"
    unfolding l by (simp add: w_def)
  then have c: "take 10 (currentUID (read_uid w)) = [1, 2, 3, 4, 5, 6, 7, 8, 9, 10]"
    unfolding l by (simp add: w_def)
  show ?thesis using a b c unfolding w_def e_def uid_def by blast
qed

end
